theory Spec2Isabelle
  imports Complex_Main "HOL-Library.Word"
begin

section \<open>Data model of package seq\<close>

text \<open>
  A \<open>Residue\<close> is a Go \<open>byte\<close>; arithmetic on it wraps modulo 256 and comparison
  is unsigned.  Go's \<open>int\<close> (the alignment scores) is a 64-bit two's complement
  integer: addition and multiplication wrap, comparison is signed.  Lengths and
  array indices are natural numbers.

  \<open>Prob\<close> is a Go \<open>float64\<close>.  The development is polymorphic in the carrier
  \<open>'p\<close> of probabilities: it only uses the zero, the addition and the strict
  comparison of the carrier, and assumes no law about them, so every statement
  below holds in particular for IEEE-754 arithmetic.  The constant \<open>MinProb\<close>
  (\<open>math.MaxFloat64\<close>) is the parameter \<open>mp\<close> of the functions that use it.
\<close>

type_synonym Residue = "8 word"
type_synonym goint = "64 word"
type_synonym Alphabet = "Residue list"

datatype panic = IndexOutOfRange | MakeNegativeLen | SliceOutOfRange | NoPath nat nat

datatype HMMState = Match | Deletion | Insertion | Begin | End

fun state_int :: "HMMState \<Rightarrow> nat" where
  "state_int Match = 0"
| "state_int Deletion = 1"
| "state_int Insertion = 2"
| "state_int Begin = 3"
| "state_int End = 4"

record 'p TProbs =
  MM :: 'p
  MI :: 'p
  MD :: 'p
  IM :: 'p
  II :: 'p
  DM :: 'p
  DD :: 'p

record 'p EProbs =
  Offset :: Residue
  Probs :: "'p list"

record 'p HMMNode =
  Residue :: Residue
  NodeNum :: int
  InsEmit :: "'p EProbs"
  MatEmit :: "'p EProbs"
  Transitions :: "'p TProbs"
  NeffM :: 'p
  NeffI :: 'p
  NeffD :: 'p

text \<open>
  The nodes of an HMM are a Go slice: a reference into a backing array, with a
  length and a capacity.  The store \<open>heap\<close> holds the backing arrays, an address is
  a position in it, and a slice is the address of its array, the offset of its
  first element, its length and its capacity.  The elements of the slice are the
  \<open>sl_len\<close> elements of the array from the offset; a slice expression may reach the
  \<open>sl_cap\<close> elements from the offset.  In a Go program a slice always lies within
  its array (\<open>wf_slice\<close>).
\<close>

type_synonym addr = nat
type_synonym 'p heap = "'p HMMNode list list"

record slice =
  sl_base :: addr
  sl_off :: nat
  sl_len :: nat
  sl_cap :: nat

record 'p HMM =
  Nodes :: slice
  Alphabet :: Alphabet
  Null :: "'p EProbs"

record Sequence =
  Name :: string
  Residues :: "Residue list"

record 'p DynamicTable =
  scores :: "'p list"
  nodes :: nat

definition Len :: "Sequence \<Rightarrow> nat" where
  "Len s = length (Residues s)"

definition elems :: "'p heap \<Rightarrow> slice \<Rightarrow> 'p HMMNode list" where
  "elems hp s = take (sl_len s) (drop (sl_off s) (hp ! sl_base s))"

definition wf_slice :: "'p heap \<Rightarrow> slice \<Rightarrow> bool" where
  "wf_slice hp s \<longleftrightarrow>
     sl_base s < length hp \<and> sl_len s \<le> sl_cap s
     \<and> sl_off s + sl_cap s \<le> length (hp ! sl_base s)"

definition nodes_of :: "'p heap \<Rightarrow> 'p HMM \<Rightarrow> 'p HMMNode list" where
  "nodes_of hp hmm = elems hp (Nodes hmm)"

section \<open>Emission tables\<close>

text \<open>
  \<open>NewEProbs\<close>: the loop over the alphabet keeps the least and the greatest residue;
  the length \<open>1 + max - offset\<close> of the table is computed on bytes and wraps.
\<close>

definition span_step :: "Residue \<Rightarrow> Residue \<times> Residue \<Rightarrow> Residue \<times> Residue" where
  "span_step r om =
     (let offset = (if r < fst om then r else fst om);
          mx = (if r > snd om then r else snd om)
      in (offset, mx))"

definition NewEProbs :: "'p::zero \<Rightarrow> Alphabet \<Rightarrow> 'p EProbs" where
  "NewEProbs mp alphabet =
     (let om = fold span_step alphabet (255, 0);
          offset = fst om; mx = snd om;
          probs = replicate (unat (1 + mx - offset)) 0;
          probs = fold (\<lambda>i ps. ps[i := mp]) [0..<length probs] probs
      in \<lparr>Offset = offset, Probs = probs\<rparr>)"

text \<open>
  \<open>Lookup\<close>: the difference \<open>r - ep.Offset\<close> is a byte and wraps; the read of
  \<open>ep.Probs\<close> is behind the guard, so it is always in range.
\<close>

definition Lookup :: "'p \<Rightarrow> 'p EProbs \<Rightarrow> Residue \<Rightarrow> 'p" where
  "Lookup mp ep r =
     (let i = r - Offset ep
      in if i < 0 \<or> unat i \<ge> length (Probs ep) then mp
         else Probs ep ! unat (r - Offset ep))"

text \<open>\<open>Set\<close> writes without a guard: Go panics when the index is out of range.\<close>

definition Set_EProbs :: "'p EProbs \<Rightarrow> Residue \<Rightarrow> 'p \<Rightarrow> panic + 'p EProbs" where
  "Set_EProbs ep r p =
     (if unat (r - Offset ep) < length (Probs ep)
      then Inr (ep\<lparr>Probs := (Probs ep)[unat (r - Offset ep) := p]\<rparr>)
      else Inl IndexOutOfRange)"

section \<open>Text form of probabilities\<close>

text \<open>
  \<open>strconv.ParseFloat\<close> and the formatting of a float by \<open>fmt.Sprintf\<close> belong to the
  Go library; they are the parameters \<open>ParseFloat\<close> (the error message or the value)
  and \<open>Sprintf\<close>. \<open>invalidProb\<close> is the NaN that \<open>NewProb\<close> returns with an error.
  In \<open>IsMin\<close> the equality of HOL stands for \<open>==\<close> on floats; the two agree when one
  side is \<open>MinProb\<close>, which is neither a NaN nor a zero.
\<close>

definition NewProb ::
  "(string \<Rightarrow> string + 'p) \<Rightarrow> 'p \<Rightarrow> 'p \<Rightarrow> string \<Rightarrow> 'p \<times> string option" where
  "NewProb ParseFloat mp invalidProb fstr =
     (if fstr = ''*'' then (mp, None)
      else case ParseFloat fstr of
             Inl err \<Rightarrow>
               (invalidProb,
                Some (''Could not convert '' @ [CHR 0x27] @ fstr @ [CHR 0x27]
                        @ '' to a log probability: '' @ err))
           | Inr f \<Rightarrow> (f, None))"

definition IsMin :: "'p \<Rightarrow> 'p \<Rightarrow> bool" where
  "IsMin mp p \<longleftrightarrow> p = mp"

definition String_Prob :: "('p \<Rightarrow> string) \<Rightarrow> 'p \<Rightarrow> 'p \<Rightarrow> string" where
  "String_Prob Sprintf mp p = (if IsMin mp p then ''*'' else Sprintf p)"

section \<open>The dynamic table and Viterbi\<close>

definition reset :: "'p \<Rightarrow> 'p DynamicTable \<Rightarrow> 'p DynamicTable" where
  "reset mp t = t\<lparr>scores := fold (\<lambda>i s. s[i := mp]) [0..<length (scores t)] (scores t)\<rparr>"

definition AllocTable :: "'p::zero \<Rightarrow> nat \<Rightarrow> nat \<Rightarrow> 'p DynamicTable" where
  "AllocTable mp numNodes seqLen =
     (let nodes = numNodes + 1;
          t = \<lparr>scores = replicate (3 * nodes * (seqLen + 1)) 0, nodes = nodes\<rparr>
      in reset mp t)"

definition index :: "'p DynamicTable \<Rightarrow> HMMState \<Rightarrow> nat \<Rightarrow> nat \<Rightarrow> nat" where
  "index t state node obs = state_int state + 3 * (node + nodes t * obs)"

text \<open>Reads and writes of \<open>t.scores\<close> panic out of range.\<close>

definition bind :: "panic + 'a \<Rightarrow> ('a \<Rightarrow> panic + 'b) \<Rightarrow> panic + 'b" where
  "bind m f = (case m of Inl e \<Rightarrow> Inl e | Inr x \<Rightarrow> f x)"

definition score_at :: "'p DynamicTable \<Rightarrow> nat \<Rightarrow> panic + 'p" where
  "score_at t i = (if i < length (scores t) then Inr (scores t ! i) else Inl IndexOutOfRange)"

definition store_at :: "'p DynamicTable \<Rightarrow> nat \<Rightarrow> 'p \<Rightarrow> panic + 'p DynamicTable" where
  "store_at t i p =
     (if i < length (scores t) then Inr (t\<lparr>scores := (scores t)[i := p]\<rparr>)
      else Inl IndexOutOfRange)"

text \<open>\<open>Less p1 p2\<close> is \<open>p1 > p2\<close>: a larger score is a smaller probability.\<close>

definition Less :: "'p::ord \<Rightarrow> 'p \<Rightarrow> bool" where
  "Less p1 p2 \<longleftrightarrow> p1 > p2"

definition set_cell :: "'p::ord DynamicTable \<Rightarrow> HMMState \<Rightarrow> nat \<Rightarrow> nat \<Rightarrow> 'p \<Rightarrow> panic + 'p DynamicTable" where
  "set_cell t state node obs p =
     (let i = index t state node obs
      in bind (score_at t i) (\<lambda>cur. if Less cur p then store_at t i p else Inr t))"

text \<open>The body of the two loops of \<open>ViterbiScoreMem\<close>, for one node and one observation.\<close>

definition viterbi_body ::
  "'p::{zero,plus,ord} \<Rightarrow> 'p HMMNode list \<Rightarrow> Sequence \<Rightarrow> nat \<Rightarrow> nat \<Rightarrow> 'p DynamicTable
     \<Rightarrow> panic + 'p DynamicTable" where
  "viterbi_body mp ns seq node obs table =
     (let trans = Transitions (ns ! node);
          residue = Residues seq ! obs;
          iemit = Lookup mp (InsEmit (ns ! node)) residue;
          memit = (if node + 1 < length ns then Lookup mp (MatEmit (ns ! (node + 1))) residue
                   else 0)
      in bind (score_at table (index table Match node obs)) (\<lambda>here.
         bind (set_cell table Insertion node (obs + 1) (here + MI trans + iemit)) (\<lambda>table.
         bind (set_cell table Match (node + 1) (obs + 1) (here + MM trans + memit)) (\<lambda>table.
         bind (set_cell table Deletion (node + 1) obs (here + MD trans)) (\<lambda>table.
         bind (score_at table (index table Insertion node obs)) (\<lambda>here.
         bind (set_cell table Insertion node (obs + 1) (here + II trans + iemit)) (\<lambda>table.
         bind (set_cell table Match (node + 1) (obs + 1) (here + IM trans + memit)) (\<lambda>table.
         bind (score_at table (index table Deletion node obs)) (\<lambda>here.
         bind (set_cell table Match (node + 1) (obs + 1) (here + DM trans + memit)) (\<lambda>table.
         set_cell table Deletion (node + 1) obs (here + DD trans)))))))))))"

definition viterbi_loops ::
  "'p::{zero,plus,ord} \<Rightarrow> 'p HMMNode list \<Rightarrow> Sequence \<Rightarrow> 'p DynamicTable \<Rightarrow> panic + 'p DynamicTable" where
  "viterbi_loops mp ns seq table =
     fold (\<lambda>node acc.
             fold (\<lambda>obs acc. bind acc (viterbi_body mp ns seq node obs)) [0..<Len seq] acc)
          [0..<length ns] (Inr table)"

definition ViterbiScoreMem ::
  "'p::{zero,plus,ord} \<Rightarrow> 'p heap \<Rightarrow> 'p HMM \<Rightarrow> Sequence \<Rightarrow> 'p DynamicTable \<Rightarrow> panic + 'p" where
  "ViterbiScoreMem mp hp hmm seq table =
     (let ns = nodes_of hp hmm;
          table = reset mp table
      in bind (store_at table (index table Match 0 0) 0) (\<lambda>table.
         bind (viterbi_loops mp ns seq table) (\<lambda>table.
         score_at table (index table Match (length ns) (Len seq)))))"

definition ViterbiScore :: "'p::{zero,plus,ord} \<Rightarrow> 'p heap \<Rightarrow> 'p HMM \<Rightarrow> Sequence \<Rightarrow> panic + 'p" where
  "ViterbiScore mp hp hmm seq =
     (let table = AllocTable mp (length (nodes_of hp hmm)) (Len seq)
      in ViterbiScoreMem mp hp hmm seq table)"

section \<open>The reference dynamic program\<close>

text \<open>
  The dynamic program as the specification words it: a table of one score per cell
  \<open>(state, node, observation)\<close>, every cell \<open>MinProb\<close> at first except
  \<open>(Match, 0, 0)\<close>, which is 0; for each node and observation the propose-updates of
  the recurrence, in its order; the score is the cell \<open>(Match, nodeCount, seqLen)\<close>.
  A propose keeps the numerically smaller value, and the value already present on
  a tie.
\<close>

type_synonym cell = "HMMState \<times> nat \<times> nat"

definition propose :: "(cell \<Rightarrow> 'p::ord) \<Rightarrow> cell \<times> 'p \<Rightarrow> (cell \<Rightarrow> 'p)" where
  "propose tbl cv = (if snd cv < tbl (fst cv) then tbl(fst cv := snd cv) else tbl)"

definition proposals ::
  "'p::plus TProbs \<Rightarrow> 'p \<Rightarrow> 'p \<Rightarrow> nat \<Rightarrow> nat \<Rightarrow> 'p \<Rightarrow> 'p \<Rightarrow> 'p \<Rightarrow> (cell \<times> 'p) list" where
  "proposals tr iemit memit n ob hereM hereI hereD =
     [((Insertion, n, ob + 1), hereM + MI tr + iemit),
      ((Match, n + 1, ob + 1), hereM + MM tr + memit),
      ((Deletion, n + 1, ob), hereM + MD tr),
      ((Insertion, n, ob + 1), hereI + II tr + iemit),
      ((Match, n + 1, ob + 1), hereI + IM tr + memit),
      ((Match, n + 1, ob + 1), hereD + DM tr + memit),
      ((Deletion, n + 1, ob), hereD + DD tr)]"

definition ref_step ::
  "'p::{zero,plus,ord} \<Rightarrow> 'p HMMNode list \<Rightarrow> Sequence \<Rightarrow> nat \<Rightarrow> nat \<Rightarrow> (cell \<Rightarrow> 'p) \<Rightarrow> (cell \<Rightarrow> 'p)" where
  "ref_step mp ns seq n ob tbl =
     (let residue = Residues seq ! ob;
          iemit = Lookup mp (InsEmit (ns ! n)) residue;
          memit = (if n + 1 < length ns then Lookup mp (MatEmit (ns ! (n + 1))) residue else 0)
      in foldl propose tbl
           (proposals (Transitions (ns ! n)) iemit memit n ob
              (tbl (Match, n, ob)) (tbl (Insertion, n, ob)) (tbl (Deletion, n, ob))))"

definition ref_init :: "'p::zero \<Rightarrow> (cell \<Rightarrow> 'p)" where
  "ref_init mp = (\<lambda>c. mp)((Match, 0, 0) := 0)"

definition ref_fill :: "'p::{zero,plus,ord} \<Rightarrow> 'p HMMNode list \<Rightarrow> Sequence \<Rightarrow> (cell \<Rightarrow> 'p)" where
  "ref_fill mp ns seq =
     fold (\<lambda>n tbl. fold (ref_step mp ns seq n) [0..<Len seq] tbl) [0..<length ns] (ref_init mp)"

definition viterbi_ref :: "'p::{zero,plus,ord} \<Rightarrow> 'p HMMNode list \<Rightarrow> Sequence \<Rightarrow> 'p" where
  "viterbi_ref mp ns seq = ref_fill mp ns seq (Match, length ns, Len seq)"

text \<open>
  The flat table \<open>t\<close> of the code represents the table \<open>tbl\<close> of the reference program
  for \<open>N\<close> nodes and \<open>L\<close> observations.
\<close>

definition valid_cell :: "nat \<Rightarrow> nat \<Rightarrow> cell \<Rightarrow> bool" where
  "valid_cell N L c \<longleftrightarrow> fst c \<in> {Match, Deletion, Insertion} \<and> fst (snd c) \<le> N \<and> snd (snd c) \<le> L"

definition represents :: "nat \<Rightarrow> nat \<Rightarrow> 'p DynamicTable \<Rightarrow> (cell \<Rightarrow> 'p) \<Rightarrow> bool" where
  "represents N L t tbl \<longleftrightarrow>
     nodes t = N + 1 \<and> length (scores t) = 3 * (N + 1) * (L + 1)
     \<and> (\<forall>st n ob. valid_cell N L (st, n, ob) \<longrightarrow> scores t ! index t st n ob = tbl (st, n, ob))"

section \<open>Slicing an HMM\<close>

text \<open>The zero value of \<open>HMMNode\<close>, which \<open>make\<close> fills a new array with.\<close>

definition zero_node :: "'p::zero HMMNode" where
  "zero_node =
     \<lparr>Residue = 0, NodeNum = 0, InsEmit = \<lparr>Offset = 0, Probs = []\<rparr>,
      MatEmit = \<lparr>Offset = 0, Probs = []\<rparr>,
      Transitions = \<lparr>MM = 0, MI = 0, MD = 0, IM = 0, II = 0, DM = 0, DD = 0\<rparr>,
      NeffM = 0, NeffI = 0, NeffD = 0\<rparr>"

text \<open>
  \<open>make([]HMMNode, n)\<close> allocates a new array of \<open>n\<close> zero nodes and returns the
  slice of all of it.
\<close>

definition make_nodes :: "'p::zero heap \<Rightarrow> int \<Rightarrow> panic + (slice \<times> 'p heap)" where
  "make_nodes hp n =
     (if n < 0 then Inl MakeNegativeLen
      else Inr (\<lparr>sl_base = length hp, sl_off = 0, sl_len = nat n, sl_cap = nat n\<rparr>,
                hp @ [replicate (nat n) zero_node]))"

text \<open>
  The slice expression \<open>s[start:end]\<close> on a slice: Go checks
  \<open>0 \<le> start \<le> end \<le> cap(s)\<close>, so \<open>end\<close> may exceed the length of \<open>s\<close>, and the result
  shares the array of \<open>s\<close>.
\<close>

definition slice_expr :: "slice \<Rightarrow> int \<Rightarrow> int \<Rightarrow> panic + slice" where
  "slice_expr s start end =
     (if 0 \<le> start \<and> start \<le> end \<and> end \<le> int (sl_cap s)
      then Inr \<lparr>sl_base = sl_base s, sl_off = sl_off s + nat start,
                sl_len = nat (end - start), sl_cap = sl_cap s - nat start\<rparr>
      else Inl SliceOutOfRange)"

text \<open>
  \<open>copy(dst, src)\<close> copies the first \<open>min (len dst) (len src)\<close> elements of \<open>src\<close> over
  the first elements of \<open>dst\<close>, in the array of \<open>dst\<close>.
\<close>

definition copy_nodes :: "'p heap \<Rightarrow> slice \<Rightarrow> slice \<Rightarrow> 'p heap" where
  "copy_nodes hp dst src =
     (let k = min (sl_len dst) (sl_len src);
          xs = take k (elems hp src);
          arr = hp ! sl_base dst
      in hp[sl_base dst := take (sl_off dst) arr @ xs @ drop (sl_off dst + length xs) arr])"

text \<open>
  An assignment \<open>nodes[i].Transitions.F = v\<close> through the slice \<open>s\<close>: the index is
  checked against the length of the slice.
\<close>

definition set_trans ::
  "'p heap \<Rightarrow> slice \<Rightarrow> int \<Rightarrow> ('p TProbs \<Rightarrow> 'p TProbs) \<Rightarrow> panic + 'p heap" where
  "set_trans hp s i f =
     (if 0 \<le> i \<and> i < int (sl_len s)
      then (let arr = hp ! sl_base s; k = sl_off s + nat i
            in Inr (hp[sl_base s := arr[k := (arr ! k)\<lparr>Transitions := f (Transitions (arr ! k))\<rparr>]]))
      else Inl IndexOutOfRange)"

definition Slice :: "'p::zero \<Rightarrow> 'p heap \<Rightarrow> 'p HMM \<Rightarrow> int \<Rightarrow> int \<Rightarrow> panic + ('p HMM \<times> 'p heap)" where
  "Slice mp hp hmm start end =
     bind (make_nodes hp (end - start)) (\<lambda>(nodes, hp).
     bind (slice_expr (Nodes hmm) start end) (\<lambda>src.
     let hp = copy_nodes hp nodes src;
         last = int (sl_len nodes) - 1
     in bind (set_trans hp nodes last (\<lambda>t. t\<lparr>MM := 0\<rparr>)) (\<lambda>hp.
        bind (set_trans hp nodes last (\<lambda>t. t\<lparr>MI := mp\<rparr>)) (\<lambda>hp.
        bind (set_trans hp nodes last (\<lambda>t. t\<lparr>MD := mp\<rparr>)) (\<lambda>hp.
        bind (set_trans hp nodes last (\<lambda>t. t\<lparr>IM := 0\<rparr>)) (\<lambda>hp.
        bind (set_trans hp nodes last (\<lambda>t. t\<lparr>II := mp\<rparr>)) (\<lambda>hp.
        bind (set_trans hp nodes last (\<lambda>t. t\<lparr>DM := 0\<rparr>)) (\<lambda>hp.
        bind (set_trans hp nodes last (\<lambda>t. t\<lparr>DD := mp\<rparr>)) (\<lambda>hp.
        Inr (\<lparr>Nodes = nodes, Alphabet = Alphabet hmm, Null = Null hmm\<rparr>, hp))))))))))"

section \<open>Needleman-Wunsch\<close>

record Alignment =
  A :: "Residue list"
  B :: "Residue list"

definition gap :: Residue where
  "gap = 45"

definition newAlignment :: "nat \<Rightarrow> Alignment" where
  "newAlignment n = \<lparr>A = [], B = []\<rparr>"

definition max3 :: "goint \<Rightarrow> goint \<Rightarrow> goint \<Rightarrow> goint" where
  "max3 a b c = (if b <s a \<and> c <s a then a else if c <s b then b else c)"

definition max_int :: "nat \<Rightarrow> nat \<Rightarrow> nat" where
  "max_int a b = (if a > b then a else b)"

text \<open>
  The three loops that compute the matrix, a flat array of \<open>r * c\<close> scores. Every
  index they use is below \<open>r * c\<close> by the loop bounds.
\<close>

definition init_col0 :: "goint \<Rightarrow> nat \<Rightarrow> nat \<Rightarrow> goint list \<Rightarrow> goint list" where
  "init_col0 gapPenalty r c matrix =
     fold (\<lambda>i m. m[i * c + 0 := gapPenalty * of_nat i]) [0..<r] matrix"

definition init_row0 :: "goint \<Rightarrow> nat \<Rightarrow> goint list \<Rightarrow> goint list" where
  "init_row0 gapPenalty c matrix =
     fold (\<lambda>j m. m[0 * c + j := gapPenalty * of_nat j]) [0..<c] matrix"

definition fill_cell ::
  "Residue list \<Rightarrow> Residue list \<Rightarrow> (Residue \<Rightarrow> Residue \<Rightarrow> goint) \<Rightarrow> goint \<Rightarrow> nat
     \<Rightarrow> nat \<Rightarrow> nat \<Rightarrow> goint list \<Rightarrow> goint list" where
  "fill_cell seqA seqB subst gapPenalty c i j m =
     (let p = i * c + j
      in m[p := max3 (m ! (p - c - 1) + subst (seqA ! (i - 1)) (seqB ! (j - 1)))
                     (m ! (p - c) + gapPenalty)
                     (m ! (p - 1) + gapPenalty)])"

definition fill_matrix ::
  "Residue list \<Rightarrow> Residue list \<Rightarrow> (Residue \<Rightarrow> Residue \<Rightarrow> goint) \<Rightarrow> goint \<Rightarrow> nat
     \<Rightarrow> nat \<Rightarrow> goint list \<Rightarrow> goint list" where
  "fill_matrix seqA seqB subst gapPenalty r c matrix =
     fold (\<lambda>i m. fold (fill_cell seqA seqB subst gapPenalty c i) [1..<c] m) [1..<r] matrix"

definition nw_matrix ::
  "Residue list \<Rightarrow> Residue list \<Rightarrow> (Residue \<Rightarrow> Residue \<Rightarrow> goint) \<Rightarrow> goint list" where
  "nw_matrix seqA seqB subst =
     (let r = length seqA + 1; c = length seqB + 1;
          gapPenalty = subst gap gap;
          matrix = replicate (r * c) 0
      in fill_matrix seqA seqB subst gapPenalty r c
           (init_row0 gapPenalty c (init_col0 gapPenalty r c matrix)))"

text \<open>
  The traceback loop, from \<open>(i, j)\<close> with the alignment built so far. The cases are
  tried in the order of the \<open>switch\<close>; the default case is the panic.
\<close>

function traceback ::
  "goint list \<Rightarrow> Residue list \<Rightarrow> Residue list \<Rightarrow> (Residue \<Rightarrow> Residue \<Rightarrow> goint) \<Rightarrow> goint
     \<Rightarrow> nat \<Rightarrow> nat \<Rightarrow> nat \<Rightarrow> Alignment \<Rightarrow> panic + Alignment" where
  "traceback matrix seqA seqB subst gapPenalty c i j aligned =
     (if i > 0 \<or> j > 0 then
        (let p = i * c + j in
         if i > 0 \<and> j > 0
            \<and> matrix ! p = matrix ! (p - c - 1) + subst (seqA ! (i - 1)) (seqB ! (j - 1))
         then traceback matrix seqA seqB subst gapPenalty c (i - 1) (j - 1)
                \<lparr>A = A aligned @ [seqA ! (i - 1)], B = B aligned @ [seqB ! (j - 1)]\<rparr>
         else if i > 0 \<and> matrix ! p = matrix ! (p - c) + gapPenalty
         then traceback matrix seqA seqB subst gapPenalty c (i - 1) j
                \<lparr>A = A aligned @ [seqA ! (i - 1)], B = B aligned @ [gap]\<rparr>
         else if j > 0 \<and> matrix ! p = matrix ! (p - 1) + gapPenalty
         then traceback matrix seqA seqB subst gapPenalty c i (j - 1)
                \<lparr>A = A aligned @ [gap], B = B aligned @ [seqB ! (j - 1)]\<rparr>
         else Inl (NoPath i j))
      else Inr aligned)"
  by pat_completeness auto
termination
  by (relation "measure (\<lambda>(m, a, b, s, g, c, i, j, al). i + j)") auto

declare traceback.simps [simp del]

text \<open>
  The loop that reverses the alignment in place, swapping positions \<open>i\<close> and \<open>j\<close> of
  both sequences; \<open>j\<close> starts at \<open>len(aligned.A) - 1\<close>, which is \<open>-1\<close> for an empty
  alignment.
\<close>

function reverse_loop :: "nat \<Rightarrow> int \<Rightarrow> Alignment \<Rightarrow> panic + Alignment" where
  "reverse_loop i j aligned =
     (if int i < j then
        (if nat j < length (A aligned) \<and> nat j < length (B aligned)
         then reverse_loop (i + 1) (j - 1)
                \<lparr>A = (A aligned)[i := A aligned ! nat j, nat j := A aligned ! i],
                 B = (B aligned)[i := B aligned ! nat j, nat j := B aligned ! i]\<rparr>
         else Inl IndexOutOfRange)
      else Inr aligned)"
  by pat_completeness auto
termination
  by (relation "measure (\<lambda>(i, j, al). nat (j - int i))") auto

declare reverse_loop.simps [simp del]

definition NeedlemanWunsch ::
  "Residue list \<Rightarrow> Residue list \<Rightarrow> (Residue \<Rightarrow> Residue \<Rightarrow> goint) \<Rightarrow> panic + Alignment" where
  "NeedlemanWunsch seqA seqB subst =
     (let r = length seqA + 1; c = length seqB + 1;
          gapPenalty = subst gap gap;
          matrix = nw_matrix seqA seqB subst;
          aligned = newAlignment (max_int r c)
      in bind (traceback matrix seqA seqB subst gapPenalty c (r - 1) (c - 1) aligned)
           (\<lambda>aligned. reverse_loop 0 (int (length (A aligned)) - 1) aligned))"

text \<open>
  The score of cell \<open>(i, j)\<close> of the matrix as the recurrence defines it: row 0 and
  column 0 hold multiples of the gap penalty, an inner cell holds \<open>max3\<close> of its
  three candidates.
\<close>

fun cell :: "Residue list \<Rightarrow> Residue list \<Rightarrow> (Residue \<Rightarrow> Residue \<Rightarrow> goint) \<Rightarrow> nat \<Rightarrow> nat \<Rightarrow> goint" where
  "cell seqA seqB subst 0 j = subst gap gap * of_nat j"
| "cell seqA seqB subst (Suc i) 0 = subst gap gap * of_nat (Suc i)"
| "cell seqA seqB subst (Suc i) (Suc j) =
     max3 (cell seqA seqB subst i j + subst (seqA ! i) (seqB ! j))
          (cell seqA seqB subst i (Suc j) + subst gap gap)
          (cell seqA seqB subst (Suc i) j + subst gap gap)"

text \<open>
  The substitution function of the alignment scenarios: a match scores 1, a mismatch
  and the gap score -1.
\<close>

definition scenario_subst :: "Residue \<Rightarrow> Residue \<Rightarrow> goint" where
  "scenario_subst x y = (if x = gap \<or> y = gap then - 1 else if x = y then 1 else - 1)"

text \<open>
  The HMM of scenario C: two nodes over the alphabet \<open>{X}\<close>, match emission 0 and
  insertion emission \<open>MinProb\<close> for \<open>X\<close>, transitions \<open>MM = IM = DM = 0\<close> and
  \<open>MinProb\<close> otherwise.
\<close>

definition scenario_trans :: "'p::zero \<Rightarrow> 'p TProbs" where
  "scenario_trans mp = \<lparr>MM = 0, MI = mp, MD = mp, IM = 0, II = mp, DM = 0, DD = mp\<rparr>"

definition scenario_node :: "'p::zero \<Rightarrow> 'p HMMNode" where
  "scenario_node mp =
     \<lparr>Residue = 88, NodeNum = 0, InsEmit = \<lparr>Offset = 88, Probs = [mp]\<rparr>,
      MatEmit = \<lparr>Offset = 88, Probs = [0]\<rparr>, Transitions = scenario_trans mp,
      NeffM = 0, NeffI = 0, NeffD = 0\<rparr>"

definition scenario_heap :: "'p::zero \<Rightarrow> 'p heap" where
  "scenario_heap mp = [[scenario_node mp, scenario_node mp]]"

definition scenario_hmm :: "'p::zero \<Rightarrow> 'p HMM" where
  "scenario_hmm mp =
     \<lparr>Nodes = \<lparr>sl_base = 0, sl_off = 0, sl_len = 2, sl_cap = 2\<rparr>,
      Alphabet = [88], Null = \<lparr>Offset = 88, Probs = [mp]\<rparr>\<rparr>"

text \<open>
  An HMM whose node slice has three elements and capacity four, as \<open>append\<close> leaves
  it: the array holds a fourth node behind the three of the HMM.
\<close>

definition spare_heap :: "'p::zero \<Rightarrow> 'p heap" where
  "spare_heap mp = [[scenario_node mp, scenario_node mp, scenario_node mp, zero_node]]"

definition spare_hmm :: "'p::zero \<Rightarrow> 'p HMM" where
  "spare_hmm mp =
     \<lparr>Nodes = \<lparr>sl_base = 0, sl_off = 0, sl_len = 3, sl_cap = 4\<rparr>,
      Alphabet = [88], Null = \<lparr>Offset = 88, Probs = [mp]\<rparr>\<rparr>"

definition scenario_seq :: Sequence where
  "scenario_seq = \<lparr>Name = [], Residues = [88, 88]\<rparr>"

text \<open>The value of \<open>math.MaxFloat64\<close> as a real number.\<close>

definition MaxFloat64 :: real where
  "MaxFloat64 = 2 ^ 1024 - 2 ^ 971"

text \<open>
  The facts about floating-point addition and comparison that scenario C relies
  on, for the zero and \<open>MinProb\<close>: adding zero changes neither of them, \<open>MinProb\<close> is
  positive, and a sum of two or three \<open>MinProb\<close> (which overflows to infinity in
  IEEE-754) is not below \<open>MinProb\<close>.
\<close>

definition minprob_arith :: "'p::{zero,plus,ord} \<Rightarrow> bool" where
  "minprob_arith mp \<longleftrightarrow>
     (0::'p) + 0 = 0 \<and> 0 + mp = mp \<and> mp + 0 = mp \<and> 0 < mp
     \<and> \<not> mp < mp \<and> \<not> mp < 0 \<and> \<not> mp + mp < mp \<and> \<not> mp + mp + mp < mp"

text \<open>
  A tie of the two gap moves at the inner cell \<open>(i + 1, j + 1)\<close>: the diagonal
  candidate is not the score of the cell and both gap candidates are.
\<close>

definition gap_tie ::
  "Residue list \<Rightarrow> Residue list \<Rightarrow> (Residue \<Rightarrow> Residue \<Rightarrow> goint) \<Rightarrow> nat \<Rightarrow> nat \<Rightarrow> bool" where
  "gap_tie seqA seqB subst i j \<longleftrightarrow>
     cell seqA seqB subst (Suc i) (Suc j) \<noteq> cell seqA seqB subst i j + subst (seqA ! i) (seqB ! j)
     \<and> cell seqA seqB subst (Suc i) (Suc j) = cell seqA seqB subst i (Suc j) + subst gap gap
     \<and> cell seqA seqB subst (Suc i) (Suc j) = cell seqA seqB subst (Suc i) j + subst gap gap"

text \<open>
  \<open>path_tie seqA seqB subst i j\<close>: the traceback of \<open>(seqA, seqB)\<close> from the cell
  \<open>(i, j)\<close> meets a cell with such a tie. The path is followed as the traceback
  does: the diagonal move first, then the vertical gap, then the horizontal one.
  In row 0 and in column 0 only one move exists, so no tie.
\<close>

fun path_tie ::
  "Residue list \<Rightarrow> Residue list \<Rightarrow> (Residue \<Rightarrow> Residue \<Rightarrow> goint) \<Rightarrow> nat \<Rightarrow> nat \<Rightarrow> bool" where
  "path_tie seqA seqB subst 0 j = False"
| "path_tie seqA seqB subst (Suc i) 0 = False"
| "path_tie seqA seqB subst (Suc i) (Suc j) =
     (gap_tie seqA seqB subst i j
      \<or> (if cell seqA seqB subst (Suc i) (Suc j)
              = cell seqA seqB subst i j + subst (seqA ! i) (seqB ! j)
          then path_tie seqA seqB subst i j
          else if cell seqA seqB subst (Suc i) (Suc j)
                    = cell seqA seqB subst i (Suc j) + subst gap gap
          then path_tie seqA seqB subst i (Suc j)
          else path_tie seqA seqB subst (Suc i) j))"

text \<open>A symmetric substitution function with a mismatch worse than two gaps.\<close>

definition tie_subst :: "Residue \<Rightarrow> Residue \<Rightarrow> goint" where
  "tie_subst x y = (if x = gap \<or> y = gap then - 1 else if x = y then 1 else - 3)"

text \<open>The transpose of an alignment: reference and query swapped.\<close>

definition transpose_alignment :: "Alignment \<Rightarrow> Alignment" where
  "transpose_alignment al = \<lparr>A = B al, B = A al\<rparr>"


section \<open>Auxiliary facts\<close>

lemma bind_Inl [simp]: "bind (Inl e) f = Inl e" by (simp add: bind_def)
lemma bind_Inr [simp]: "bind (Inr x) f = f x" by (simp add: bind_def)

lemma set_trans_upd:
  "n < length xs \<Longrightarrow>
   set_trans (hp @ [xs[n := x]]) \<lparr>sl_base = length hp, sl_off = 0, sl_len = length xs, sl_cap = c\<rparr> (int n) f
     = Inr (hp @ [xs[n := x\<lparr>Transitions := f (Transitions x)\<rparr>]])"
  by (simp add: set_trans_def Let_def)

lemma seven_updates:
  "t\<lparr>MM := a, MI := b, MD := c, IM := d, II := e, DM := f, DD := g\<rparr>
     = \<lparr>MM = a, MI = b, MD = c, IM = d, II = e, DM = f, DD = g\<rparr>"
  by (cases t) simp

lemma elems_append:
  "sl_base s < length hp \<Longrightarrow> elems (hp @ [xs]) s = elems hp s"
  by (simp add: elems_def nth_append)

lemma Slice_ok:
  assumes wf: "wf_slice hp (Nodes hmm)"
    and "0 \<le> start" "start < end" "end \<le> int (sl_cap (Nodes hmm))"
  shows "Slice mp hp hmm start end =
    (let src = take (nat (end - start)) (drop (sl_off (Nodes hmm) + nat start) (hp ! sl_base (Nodes hmm)));
         l = nat (end - start) - 1
     in Inr (\<lparr>Nodes = \<lparr>sl_base = length hp, sl_off = 0, sl_len = nat (end - start), sl_cap = nat (end - start)\<rparr>,
              Alphabet = Alphabet hmm, Null = Null hmm\<rparr>,
       hp @ [src[l := (src ! l)\<lparr>Transitions := \<lparr>MM = 0, MI = mp, MD = mp, IM = 0, II = mp, DM = 0, DD = mp\<rparr>\<rparr>]]))"
proof -
  let ?s = "Nodes hmm"
  define k where "k = nat (end - start)"
  define src where "src = take k (drop (sl_off ?s + nat start) (hp ! sl_base ?s))"
  define l where "l = k - 1"
  let ?sub = "\<lparr>sl_base = sl_base ?s, sl_off = sl_off ?s + nat start, sl_len = k, sl_cap = sl_cap ?s - nat start\<rparr>"
  let ?new = "\<lparr>sl_base = length hp, sl_off = 0, sl_len = k, sl_cap = k\<rparr>"
  have b: "sl_base ?s < length hp" "sl_off ?s + sl_cap ?s \<le> length (hp ! sl_base ?s)"
    using wf by (simp_all add: wf_slice_def)
  have "sl_off ?s + nat start + k \<le> length (hp ! sl_base ?s)"
    using b(2) assms(2,3,4) by (simp add: k_def)
  then have len: "length src = k" by (simp add: src_def)
  have l: "l < length src" "int k - 1 = int l" "0 < k"
    using assms(3) len by (auto simp: l_def k_def)
  have se: "slice_expr ?s start end = Inr ?sub"
    using assms by (simp add: slice_expr_def k_def)
  have el: "elems (hp @ [replicate k zero_node]) ?sub = src"
    using b(1) by (simp add: elems_def nth_append src_def)
  have cp: "copy_nodes (hp @ [replicate k zero_node]) ?new ?sub = hp @ [src]"
    unfolding copy_nodes_def Let_def using len by (simp add: el)
  have start: "hp @ [src] = hp @ [src[l := src ! l]]" by simp
  have new: "?new = \<lparr>sl_base = length hp, sl_off = 0, sl_len = length src, sl_cap = k\<rparr>"
    using len by simp
  have "Slice mp hp hmm start end = Inr (\<lparr>Nodes = ?new, Alphabet = Alphabet hmm, Null = Null hmm\<rparr>,
       hp @ [src[l := (src ! l)\<lparr>Transitions := \<lparr>MM = 0, MI = mp, MD = mp, IM = 0, II = mp, DM = 0, DD = mp\<rparr>\<rparr>]])"
    unfolding Slice_def make_nodes_def
    using assms(3) apply (simp add: se cp l(2) k_def[symmetric])
    apply (subst start)
    apply (subst (1 2 3 4 5 6 7) new)
    apply (simp only: Let_def set_trans_upd [OF l(1)] bind_Inr)
    apply (simp add: seven_updates len)
    done
  then show ?thesis by (simp add: src_def l_def k_def Let_def)
qed

lemma Slice_fails_empty: "\<exists>e. Slice mp hp hmm start start = Inl e"
  by (auto simp: Slice_def make_nodes_def slice_expr_def set_trans_def)

lemma Slice_empty_index:
  "0 \<le> start \<Longrightarrow> start \<le> int (sl_cap (Nodes hmm)) \<Longrightarrow> Slice mp hp hmm start start = Inl IndexOutOfRange"
  by (simp add: Slice_def make_nodes_def slice_expr_def set_trans_def)

lemma Slice_defined:
  assumes "Slice mp hp hmm start end = Inr r"
  shows "0 \<le> start \<and> start < end \<and> end \<le> int (sl_cap (Nodes hmm))"
proof -
  have a: "0 \<le> end - start" using assms by (auto simp: Slice_def make_nodes_def split: if_splits)
  have b: "0 \<le> start \<and> start \<le> end \<and> end \<le> int (sl_cap (Nodes hmm))"
    using assms a by (auto simp: Slice_def make_nodes_def slice_expr_def split: if_splits)
  have "start \<noteq> end" using assms Slice_fails_empty[of mp hp hmm start] by auto
  with b show ?thesis by auto
qed

lemma wf_nodes_length: "wf_slice hp (Nodes hmm) \<Longrightarrow> length (nodes_of hp hmm) = sl_len (Nodes hmm)"
  by (auto simp: wf_slice_def nodes_of_def elems_def)

lemma idx_eq:
  fixes c :: nat
  assumes "j < c" "l < c"
  shows "(i * c + j = k * c + l) = (i = k \<and> j = l)"
proof -
  have d: "(i * c + j) div c = i" "(k * c + l) div c = k" "(i * c + j) mod c = j" "(k * c + l) mod c = l"
    using assms by simp_all
  have "i = k \<and> j = l" if "i * c + j = k * c + l"
    using d that by metis
  then show ?thesis by auto
qed

lemma length_fold_upd: "length (fold (\<lambda>j m. m[f j := g j]) xs m) = length m"
  by (induction xs arbitrary: m) simp_all

lemma idx_lt: "i < r \<Longrightarrow> j < c \<Longrightarrow> i * c + j < r * c" for c :: nat
proof -
  assume a: "i < r" "j < c"
  then have "i * c + j < i * c + c" by simp
  also have "\<dots> = Suc i * c" by simp
  also have "\<dots> \<le> r * c" using a by (intro mult_le_mono1) simp
  finally show ?thesis .
qed

lemma length_init_col0: "length (init_col0 g r c m) = length m"
  unfolding init_col0_def by (induction r) simp_all

lemma init_col0_nth:
  "0 < c \<Longrightarrow> length m = n * c \<Longrightarrow> r \<le> n \<Longrightarrow> i < n \<Longrightarrow> j < c \<Longrightarrow>
   init_col0 g r c m ! (i * c + j) = (if j = 0 \<and> i < r then g * of_nat i else m ! (i * c + j))"
proof (induction r)
  case 0 then show ?case by (simp add: init_col0_def)
next
  case (Suc r)
  have l: "length (fold (\<lambda>i m. m[i * c + 0 := g * of_nat i]) [0..<r] m) = n * c"
    using length_init_col0[of g r c m] Suc by (simp add: init_col0_def)
  have lt: "i * c + j < n * c" using Suc idx_lt by simp
  have e: "(r * c = i * c + j) = (r = i \<and> j = 0)" using idx_eq[of 0 c j r i] Suc by auto
  show ?case using Suc l lt e
    by (auto simp: init_col0_def nth_list_update)
qed

lemma length_init_row0: "length (init_row0 g c m) = length m"
proof -
  have "length (fold (\<lambda>j m. m[0 * k + j := g * of_nat j]) [0..<c] m) = length m" for k
    by (induction c) simp_all
  then show ?thesis by (simp add: init_row0_def)
qed

lemma init_row0_nth_aux:
  "0 < c \<Longrightarrow> length m = n * c \<Longrightarrow> l \<le> c \<Longrightarrow> i < n \<Longrightarrow> j < c \<Longrightarrow>
   fold (\<lambda>j m. m[0 * c + j := g * of_nat j]) [0..<l] m ! (i * c + j)
     = (if i = 0 \<and> j < l then g * of_nat j else m ! (i * c + j))"
proof (induction l)
  case 0 then show ?case by simp
next
  case (Suc l)
  have len: "length (fold (\<lambda>j m. m[0 * c + j := g * of_nat j]) [0..<l] m) = n * c"
    using Suc length_fold_upd[where f = "\<lambda>j. j" and g = "\<lambda>j. g * of_nat j" and xs = "[0..<l]" and m = m] by simp
  have lt: "i * c + j < n * c" using Suc idx_lt by simp
  have e: "(l = i * c + j) = (i = 0 \<and> j = l)" using idx_eq[of l c j 0 i] Suc by auto
  show ?case using Suc len lt e
    by (auto simp: nth_list_update)
qed

lemma init_row0_nth:
  "0 < c \<Longrightarrow> length m = n * c \<Longrightarrow> i < n \<Longrightarrow> j < c \<Longrightarrow>
   init_row0 g c m ! (i * c + j) = (if i = 0 then g * of_nat j else m ! (i * c + j))"
  using init_row0_nth_aux[of c m n c i j g] by (simp add: init_row0_def)

lemma cell_col0: "cell a b s i 0 = s gap gap * of_nat i"
  by (cases i) simp_all

lemma fill_cell_step:
  assumes c: "0 < c" and len: "length m = r * c" and k: "k < r" and l: "l < c"
    and inv: "\<And>i j. i < r \<Longrightarrow> j < c \<Longrightarrow> i < Suc k \<or> j = 0 \<or> (i = Suc k \<and> j < Suc l)
                \<Longrightarrow> m ! (i * c + j) = cell a b s i j"
    and kr: "Suc k < r" and lc: "Suc l < c"
    and ij: "i < r" "j < c" "i < Suc k \<or> j = 0 \<or> (i = Suc k \<and> j < Suc (Suc l))"
  shows "fill_cell a b s (s gap gap) c (Suc k) (Suc l) m ! (i * c + j) = cell a b s i j"
proof -
  let ?p = "Suc k * c + Suc l"
  have p1: "?p - c - 1 = k * c + l" by simp
  have p2: "?p - c = k * c + Suc l" by simp
  have p3: "?p - 1 = Suc k * c + l" by simp
  have r1: "m ! (k * c + l) = cell a b s k l" using inv[of k l] k l by simp
  have r2: "m ! (k * c + Suc l) = cell a b s k (Suc l)" using inv[of k "Suc l"] k lc by simp
  have r3: "m ! (Suc k * c + l) = cell a b s (Suc k) l" using inv[of "Suc k" l] kr l by simp
  have plt: "?p < length m" using idx_lt[OF kr lc] len by simp
  show ?thesis
  proof (cases "i = Suc k \<and> j = Suc l")
    case True
    then show ?thesis
      unfolding fill_cell_def Let_def p1 p2 p3 using plt r1 r2 r3 by simp
  next
    case False
    then have ne: "Suc k * c + Suc l \<noteq> i * c + j" using idx_eq[OF lc ij(2), of "Suc k" i] by auto
    have "m ! (i * c + j) = cell a b s i j" using inv[of i j] ij False by auto
    then show ?thesis unfolding fill_cell_def Let_def using ne by simp
  qed
qed

lemma length_fill_cell: "length (fill_cell a b s g c i j m) = length m"
  by (simp add: fill_cell_def Let_def)

lemma length_fill_row: "length (fold (fill_cell a b s g c i) xs m) = length m"
  by (induction xs arbitrary: m) (simp_all add: length_fill_cell)

lemma fill_row:
  assumes c: "0 < c" and len: "length m = r * c" and kr: "Suc k < r"
    and inv: "\<And>i j. i < r \<Longrightarrow> j < c \<Longrightarrow> i < Suc k \<or> j = 0 \<Longrightarrow> m ! (i * c + j) = cell a b s i j"
  shows "Suc l \<le> c \<Longrightarrow> i < r \<Longrightarrow> j < c \<Longrightarrow> i < Suc k \<or> j = 0 \<or> (i = Suc k \<and> j < Suc l) \<Longrightarrow>
     fold (fill_cell a b s (s gap gap) c (Suc k)) [1..<Suc l] m ! (i * c + j) = cell a b s i j"
proof (induction l arbitrary: i j)
  case 0
  then show ?case using inv[of i j] by auto
next
  case (Suc l)
  let ?m = "fold (fill_cell a b s (s gap gap) c (Suc k)) [1..<Suc l] m"
  have lm: "length ?m = r * c" using len by (simp add: length_fill_row)
  have k: "k < r" using kr by simp
  have l: "l < c" using Suc.prems by simp
  have step: "fill_cell a b s (s gap gap) c (Suc k) (Suc l) ?m ! (i * c + j) = cell a b s i j"
    apply (rule fill_cell_step[OF c lm k l _ kr])
    using Suc.prems Suc.IH by auto
  have "[1..<Suc (Suc l)] = [1..<Suc l] @ [Suc l]" by simp
  then show ?case using step by (simp del: upt_Suc)
qed

lemma fill_rows:
  assumes c: "0 < c" and len: "length m = r * c"
    and inv: "\<And>i j. i < r \<Longrightarrow> j < c \<Longrightarrow> i = 0 \<or> j = 0 \<Longrightarrow> m ! (i * c + j) = cell a b s i j"
  shows "Suc k \<le> r \<Longrightarrow> i < r \<Longrightarrow> j < c \<Longrightarrow> i < Suc k \<or> j = 0 \<Longrightarrow>
     fold (\<lambda>i m. fold (fill_cell a b s (s gap gap) c i) [1..<c] m) [1..<Suc k] m ! (i * c + j)
       = cell a b s i j"
proof (induction k arbitrary: i j)
  case 0
  then show ?case using inv[of i j] by auto
next
  case (Suc k)
  let ?m = "fold (\<lambda>i m. fold (fill_cell a b s (s gap gap) c i) [1..<c] m) [1..<Suc k] m"
  have lm: "length ?m = r * c" using len
    by (induction k) (simp_all add: length_fill_row)
  obtain c' where c': "c = Suc c'" using c by (cases c) auto
  have kr: "Suc k < r" using Suc.prems by simp
  have row: "fold (fill_cell a b s (s gap gap) c (Suc k)) [1..<Suc c'] ?m ! (i * c + j) = cell a b s i j"
    apply (rule fill_row[OF c lm kr])
    using Suc.prems Suc.IH c' by auto
  have "[1..<Suc (Suc k)] = [1..<Suc k] @ [Suc k]" by simp
  then show ?case using row c' by (simp del: upt_Suc)
qed

lemma nw_matrix_cell:
  assumes "i \<le> length a" "j \<le> length b"
  shows "nw_matrix a b s ! (i * (length b + 1) + j) = cell a b s i j"
proof -
  let ?r = "length a + 1" and ?c = "length b + 1" and ?g = "s gap gap"
  let ?m0 = "replicate (?r * ?c) (0::goint)"
  let ?m1 = "init_col0 ?g ?r ?c ?m0"
  let ?m2 = "init_row0 ?g ?c ?m1"
  have l1: "length ?m1 = ?r * ?c" by (simp add: length_init_col0)
  have l2: "length ?m2 = ?r * ?c" by (simp add: length_init_row0 length_init_col0)
  have inv: "?m2 ! (i * ?c + j) = cell a b s i j" if "i < ?r" "j < ?c" "i = 0 \<or> j = 0" for i j
  proof (cases "i = 0")
    case True
    then show ?thesis using init_row0_nth[of ?c ?m1 ?r i j ?g] l1 that by simp
  next
    case False
    then have j: "j = 0" using that by simp
    have "?m2 ! (i * ?c + j) = ?m1 ! (i * ?c + j)"
      using init_row0_nth[of ?c ?m1 ?r i j ?g] l1 that False by simp
    also have "\<dots> = ?g * of_nat i"
      using init_col0_nth[of ?c ?m0 ?r ?r i j ?g] that j by simp
    finally show ?thesis using j by (simp add: cell_col0)
  qed
  have "fold (\<lambda>i m. fold (fill_cell a b s ?g ?c i) [1..<?c] m) [1..<Suc (length a)] ?m2 ! (i * ?c + j)
       = cell a b s i j"
    apply (rule fill_rows[where r = ?r])
    using l2 inv assms by auto
  then show ?thesis by (simp add: nw_matrix_def fill_matrix_def Let_def)
qed

subsection \<open>The traceback follows the matrix\<close>

lemma max3_cases: "max3 x y z = x \<or> max3 x y z = y \<or> max3 x y z = z"
  by (simp add: max3_def)

lemma cell_row0_step: "cell a b s 0 (Suc j) = cell a b s 0 j + s gap gap"
  by (simp add: algebra_simps)

lemma cell_col0_step: "cell a b s (Suc i) 0 = cell a b s i 0 + s gap gap"
  by (simp add: cell_col0 algebra_simps)

lemma traceback_result:
  assumes M: "\<And>i j. i \<le> length a \<Longrightarrow> j \<le> length b \<Longrightarrow> m ! (i * c + j) = cell a b s i j"
    and c: "c = length b + 1" and g: "g = s gap gap"
  shows "i \<le> length a \<Longrightarrow> j \<le> length b \<Longrightarrow>
     \<exists>xs ys. traceback m a b s g c i j al = Inr \<lparr>A = A al @ xs, B = B al @ ys\<rparr>
        \<and> length xs = length ys
        \<and> filter (\<lambda>x. x \<noteq> gap) xs = rev (filter (\<lambda>x. x \<noteq> gap) (take i a))
        \<and> filter (\<lambda>x. x \<noteq> gap) ys = rev (filter (\<lambda>x. x \<noteq> gap) (take j b))"
proof (induction "i + j" arbitrary: i j al rule: less_induct)
  case less
  let ?P = "\<lambda>x. x \<noteq> gap"
  let ?p = "i * c + j"
  let ?D = "i > 0 \<and> j > 0 \<and> m ! ?p = m ! (?p - c - 1) + s (a ! (i - 1)) (b ! (j - 1))"
  let ?V = "i > 0 \<and> m ! ?p = m ! (?p - c) + g"
  let ?H = "j > 0 \<and> m ! ?p = m ! (?p - 1) + g"
  have tkA: "take i a = take (i - 1) a @ [a ! (i - 1)]" if "i > 0"
    using that less.prems(1) take_Suc_conv_app_nth[of "i - 1" a] by simp
  have tkB: "take j b = take (j - 1) b @ [b ! (j - 1)]" if "j > 0"
    using that less.prems(2) take_Suc_conv_app_nth[of "j - 1" b] by simp
  show ?case
  proof (cases "i = 0 \<and> j = 0")
    case True
    then show ?thesis
      by (intro exI[of _ "[]"]) (simp add: traceback.simps)
  next
    case nz: False
    consider (d) ?D | (v) "\<not> ?D" ?V | (h) "\<not> ?D" "\<not> ?V" ?H | (n) "\<not> ?D" "\<not> ?V" "\<not> ?H"
      by blast
    then show ?thesis
    proof cases
      case d
      let ?al = "\<lparr>A = A al @ [a ! (i - 1)], B = B al @ [b ! (j - 1)]\<rparr>"
      have tb: "traceback m a b s g c i j al = traceback m a b s g c (i - 1) (j - 1) ?al"
        using d by (subst traceback.simps) (auto simp: Let_def)
      obtain xs ys where r: "traceback m a b s g c (i - 1) (j - 1) ?al = Inr \<lparr>A = A ?al @ xs, B = B ?al @ ys\<rparr>"
        "length xs = length ys"
        "filter ?P xs = rev (filter ?P (take (i - 1) a))"
        "filter ?P ys = rev (filter ?P (take (j - 1) b))"
        proof -
        have lt: "(i - 1) + (j - 1) < i + j" using d by simp
        show ?thesis
          using less.hyps[OF lt, of ?al] less.prems that by fastforce
      qed
      show ?thesis
        apply (rule exI[of _ "a ! (i - 1) # xs"], rule exI[of _ "b ! (j - 1) # ys"])
        using tb r d tkA tkB by simp
    next
      case v
      let ?al = "\<lparr>A = A al @ [a ! (i - 1)], B = B al @ [gap]\<rparr>"
      have tb: "traceback m a b s g c i j al = traceback m a b s g c (i - 1) j ?al"
        using v by (subst traceback.simps) (auto simp: Let_def)
      obtain xs ys where r: "traceback m a b s g c (i - 1) j ?al = Inr \<lparr>A = A ?al @ xs, B = B ?al @ ys\<rparr>"
        "length xs = length ys"
        "filter ?P xs = rev (filter ?P (take (i - 1) a))"
        "filter ?P ys = rev (filter ?P (take j b))"
        proof -
        have lt: "(i - 1) + j < i + j" using v by simp
        show ?thesis
          using less.hyps[OF lt, of ?al] less.prems that by fastforce
      qed
      show ?thesis
        apply (rule exI[of _ "a ! (i - 1) # xs"], rule exI[of _ "gap # ys"])
        using tb r v tkA by simp
    next
      case h
      let ?al = "\<lparr>A = A al @ [gap], B = B al @ [b ! (j - 1)]\<rparr>"
      have tb: "traceback m a b s g c i j al = traceback m a b s g c i (j - 1) ?al"
        using h by (subst traceback.simps) (auto simp: Let_def)
      obtain xs ys where r: "traceback m a b s g c i (j - 1) ?al = Inr \<lparr>A = A ?al @ xs, B = B ?al @ ys\<rparr>"
        "length xs = length ys"
        "filter ?P xs = rev (filter ?P (take i a))"
        "filter ?P ys = rev (filter ?P (take (j - 1) b))"
        proof -
        have lt: "i + (j - 1) < i + j" using h by simp
        show ?thesis
          using less.hyps[OF lt, of ?al] less.prems that by fastforce
      qed
      show ?thesis
        apply (rule exI[of _ "gap # xs"], rule exI[of _ "b ! (j - 1) # ys"])
        using tb r h tkB by simp
    next
      case n
      have False
      proof (cases i)
        case 0
        then obtain j' where j: "j = Suc j'" using nz by (cases j) auto
        have "m ! ?p = m ! (?p - 1) + g"
          using M[of 0 j] M[of 0 j'] less.prems 0 j g by (simp add: algebra_simps)
        then show False using n 0 j by simp
      next
        case (Suc i')
        show False
        proof (cases j)
          case 0
          have "?p - c = i' * c + 0" using Suc 0 by simp
          then have "m ! ?p = m ! (?p - c) + g"
            using M[of i 0] M[of i' 0] less.prems Suc 0 g cell_col0_step[of a b s i'] by simp
          then show False using n Suc by simp
        next
          case (Suc j')
          note i = \<open>i = Suc i'\<close> and j = Suc
          have p1: "?p - c - 1 = i' * c + j'" using i j by simp
          have p2: "?p - c = i' * c + j" using i j by simp
          have p3: "?p - 1 = i * c + j'" using i j by simp
          have mp: "m ! ?p = max3 (m ! (?p - c - 1) + s (a ! (i - 1)) (b ! (j - 1))) (m ! (?p - c) + g) (m ! (?p - 1) + g)"
            unfolding p1 p2 p3
            using M[of i j] M[of i' j'] M[of i' j] M[of i j'] less.prems i j g by simp
          show False using n max3_cases[of "m ! (?p - c - 1) + s (a ! (i - 1)) (b ! (j - 1))" "m ! (?p - c) + g" "m ! (?p - 1) + g"] mp i j
            by auto
        qed
      qed
      then show ?thesis ..
    qed
  qed
qed

subsection \<open>The reversal loop\<close>

lemma swap_nth:
  "i < length xs \<Longrightarrow> j < length xs \<Longrightarrow> k < length xs \<Longrightarrow>
   xs[i := xs ! j, j := xs ! i] ! k = (if k = j then xs ! i else if k = i then xs ! j else xs ! k)"
  by (simp add: nth_list_update)

lemma reverse_loop_nth:
  "length (A al) = n \<Longrightarrow> length (B al) = n \<Longrightarrow> j < int n \<Longrightarrow>
   \<exists>r. reverse_loop i j al = Inr r \<and> length (A r) = n \<and> length (B r) = n \<and>
     (\<forall>k<n. A r ! k = (if int i \<le> int k \<and> int k \<le> j then A al ! nat (int i + j - int k) else A al ! k)) \<and>
     (\<forall>k<n. B r ! k = (if int i \<le> int k \<and> int k \<le> j then B al ! nat (int i + j - int k) else B al ! k))"
proof (induction i j al rule: reverse_loop.induct)
  case (1 i j al)
  show ?case
  proof (cases "int i < j")
    case False
    have e: "nat (int i + j - int k) = k" if "int i \<le> int k" "int k \<le> j" for k
      using that False by simp
    show ?thesis
      apply (subst reverse_loop.simps)
      using False e 1(2,3) by simp
  next
    case True
    let ?al = "\<lparr>A = (A al)[i := A al ! nat j, nat j := A al ! i],
                 B = (B al)[i := B al ! nat j, nat j := B al ! i]\<rparr>"
    have jn: "nat j < n" "i < n" "i < nat j" using True 1(4) by auto
    have jn2: "int i < j" "int i \<le> j" "nat (int i + j - int i) = nat j"
      "nat (int i + j - int (nat j)) = i" "int (nat j) \<le> j" "int i \<le> int (nat j)"
      using True 1(4) by auto
    have rl: "reverse_loop i j al = reverse_loop (i + 1) (j - 1) ?al"
      apply (subst reverse_loop.simps) using True jn 1 by simp
    have "\<exists>r. reverse_loop (i + 1) (j - 1) ?al = Inr r \<and> length (A r) = n \<and> length (B r) = n \<and>
     (\<forall>k<n. A r ! k = (if int (i + 1) \<le> int k \<and> int k \<le> j - 1 then A ?al ! nat (int (i + 1) + (j - 1) - int k) else A ?al ! k)) \<and>
     (\<forall>k<n. B r ! k = (if int (i + 1) \<le> int k \<and> int k \<le> j - 1 then B ?al ! nat (int (i + 1) + (j - 1) - int k) else B ?al ! k))"
      apply (rule 1(1)[OF True])
      using jn 1(2,3,4) by simp_all
    then obtain r where r: "reverse_loop (i + 1) (j - 1) ?al = Inr r" "length (A r) = n" "length (B r) = n"
      "\<And>k. k < n \<Longrightarrow> A r ! k = (if int (i + 1) \<le> int k \<and> int k \<le> j - 1 then A ?al ! nat (int (i + 1) + (j - 1) - int k) else A ?al ! k)"
      "\<And>k. k < n \<Longrightarrow> B r ! k = (if int (i + 1) \<le> int k \<and> int k \<le> j - 1 then B ?al ! nat (int (i + 1) + (j - 1) - int k) else B ?al ! k)"
      by blast
    have gen: "(if int (i + 1) \<le> int k \<and> int k \<le> j - 1
               then xs[i := xs ! nat j, nat j := xs ! i] ! nat (int (i + 1) + (j - 1) - int k)
               else xs[i := xs ! nat j, nat j := xs ! i] ! k)
             = (if int i \<le> int k \<and> int k \<le> j then xs ! nat (int i + j - int k) else xs ! k)"
      if "length xs = n" "k < n" for xs :: "Residue list" and k
    proof (cases "int (i + 1) \<le> int k \<and> int k \<le> j - 1")
      case True
      let ?k' = "nat (int (i + 1) + (j - 1) - int k)"
      have k': "?k' < n" "?k' \<noteq> nat j" "?k' \<noteq> i" "?k' = nat (int i + j - int k)"
        using True jn by auto
      show ?thesis using True k' swap_nth[of i xs "nat j" ?k'] that jn by simp
    next
      case False
      consider "k = i" | "k = nat j" | "int k < int i \<or> j < int k" using False by fastforce
      then show ?thesis
      proof cases
        case 1 then show ?thesis using False swap_nth[of i xs "nat j" k] that jn jn2 by simp
      next
        case 2 then show ?thesis using False swap_nth[of i xs "nat j" k] that jn jn2 by simp
      next
        case 3 
        then have "k \<noteq> i" "k \<noteq> nat j" using jn jn2 by auto
        then show ?thesis using False 3 swap_nth[of i xs "nat j" k] that jn by auto
      qed
    qed
    have ra: "A r ! k = (if int i \<le> int k \<and> int k \<le> j then A al ! nat (int i + j - int k) else A al ! k)"
      if "k < n" for k
    proof -
      have "A r ! k = (if int (i + 1) \<le> int k \<and> int k \<le> j - 1 then A ?al ! nat (int (i + 1) + (j - 1) - int k) else A ?al ! k)"
        by (rule r(4)[OF that])
      also have "\<dots> = (if int (i + 1) \<le> int k \<and> int k \<le> j - 1
               then (A al)[i := A al ! nat j, nat j := A al ! i] ! nat (int (i + 1) + (j - 1) - int k)
               else (A al)[i := A al ! nat j, nat j := A al ! i] ! k)"
        by (simp only: Alignment.select_convs)
      also have "\<dots> = (if int i \<le> int k \<and> int k \<le> j then A al ! nat (int i + j - int k) else A al ! k)"
        by (rule gen[OF 1(2) that])
      finally show ?thesis .
    qed
    have rb: "B r ! k = (if int i \<le> int k \<and> int k \<le> j then B al ! nat (int i + j - int k) else B al ! k)"
      if "k < n" for k
    proof -
      have "B r ! k = (if int (i + 1) \<le> int k \<and> int k \<le> j - 1 then B ?al ! nat (int (i + 1) + (j - 1) - int k) else B ?al ! k)"
        by (rule r(5)[OF that])
      also have "\<dots> = (if int (i + 1) \<le> int k \<and> int k \<le> j - 1
               then (B al)[i := B al ! nat j, nat j := B al ! i] ! nat (int (i + 1) + (j - 1) - int k)
               else (B al)[i := B al ! nat j, nat j := B al ! i] ! k)"
        by (simp only: Alignment.select_convs)
      also have "\<dots> = (if int i \<le> int k \<and> int k \<le> j then B al ! nat (int i + j - int k) else B al ! k)"
        by (rule gen[OF 1(3) that])
      finally show ?thesis .
    qed
    show ?thesis
      unfolding rl
      apply (rule exI[of _ r])
      using r(1,2,3) ra rb by blast
  qed
qed

lemma reverse_loop_rev:
  assumes "length xs = length ys"
  shows "reverse_loop 0 (int (length xs) - 1) \<lparr>A = xs, B = ys\<rparr> = Inr \<lparr>A = rev xs, B = rev ys\<rparr>"
proof -
  let ?n = "length xs"
  obtain r where r: "reverse_loop 0 (int ?n - 1) \<lparr>A = xs, B = ys\<rparr> = Inr r" "length (A r) = ?n" "length (B r) = ?n"
     "\<And>k. k < ?n \<Longrightarrow> A r ! k = (if int 0 \<le> int k \<and> int k \<le> int ?n - 1 then xs ! nat (int 0 + (int ?n - 1) - int k) else xs ! k)"
     "\<And>k. k < ?n \<Longrightarrow> B r ! k = (if int 0 \<le> int k \<and> int k \<le> int ?n - 1 then ys ! nat (int 0 + (int ?n - 1) - int k) else ys ! k)"
    using reverse_loop_nth[of "\<lparr>A = xs, B = ys\<rparr>" ?n "int ?n - 1" 0] assms by auto
  have e: "nat (int 0 + (int ?n - 1) - int k) = ?n - Suc k" if "k < ?n" for k using that by auto
  have "A r = rev xs"
    by (rule nth_equalityI) (use r e in \<open>simp_all add: rev_nth\<close>)
  moreover have "B r = rev ys"
    by (rule nth_equalityI) (use r e assms in \<open>simp_all add: rev_nth\<close>)
  ultimately show ?thesis using r(1) by (cases r) simp
qed

subsection \<open>The result of the alignment\<close>

lemma NeedlemanWunsch_result:
  "\<exists>xs ys. NeedlemanWunsch a b s = Inr \<lparr>A = xs, B = ys\<rparr>
      \<and> length xs = length ys
      \<and> filter (\<lambda>x. x \<noteq> gap) xs = filter (\<lambda>x. x \<noteq> gap) a
      \<and> filter (\<lambda>x. x \<noteq> gap) ys = filter (\<lambda>x. x \<noteq> gap) b"
proof -
  let ?P = "\<lambda>x. x \<noteq> gap"
  let ?al = "newAlignment (max_int (length a + 1) (length b + 1))"
  have "\<exists>xs ys. traceback (nw_matrix a b s) a b s (s gap gap) (length b + 1) (length a) (length b) ?al
          = Inr \<lparr>A = A ?al @ xs, B = B ?al @ ys\<rparr>
        \<and> length xs = length ys
        \<and> filter ?P xs = rev (filter ?P (take (length a) a))
        \<and> filter ?P ys = rev (filter ?P (take (length b) b))"
    by (rule traceback_result[where c = "length b + 1"]) (rule nw_matrix_cell, simp_all)
  then obtain xs ys where t: "traceback (nw_matrix a b s) a b s (s gap gap) (length b + 1) (length a) (length b) ?al
          = Inr \<lparr>A = xs, B = ys\<rparr>" "length xs = length ys"
       "filter ?P xs = rev (filter ?P a)" "filter ?P ys = rev (filter ?P b)"
    by (auto simp: newAlignment_def)
  have "NeedlemanWunsch a b s = Inr \<lparr>A = rev xs, B = rev ys\<rparr>"
    using t(1) reverse_loop_rev[OF t(2)] by (simp add: NeedlemanWunsch_def Let_def)
  moreover have "filter ?P (rev xs) = filter ?P a" "filter ?P (rev ys) = filter ?P b"
    using t(3,4) by (simp_all add: rev_filter[symmetric])
  ultimately show ?thesis using t(2) by auto
qed

subsection \<open>Emission tables\<close>

lemma fold_span_step:
  "fold span_step xs om = om' \<Longrightarrow>
     fst om' \<le> fst om \<and> snd om \<le> snd om' \<and> (\<forall>x\<in>set xs. fst om' \<le> x \<and> x \<le> snd om')"
proof (induction xs arbitrary: om)
  case Nil then show ?case by simp
next
  case (Cons x xs)
  have "fold span_step xs (span_step x om) = om'"
    using Cons.prems by simp
  from Cons.IH[OF this] show ?case by (auto simp: span_step_def Let_def split: if_splits)
qed

lemma span_len: "lo \<le> hi \<Longrightarrow> unat lo + unat (1 + hi - lo) \<le> 256" for lo hi :: "8 word"
proof -
  assume le: "lo \<le> hi"
  have a: "unat (hi - lo) = unat hi - unat lo" using le by (simp add: unat_sub)
  have b: "unat hi < 256" using unsigned_less[of hi, where 'a = nat] by simp
  have c: "unat lo \<le> unat hi" using le by (simp add: word_le_nat_alt)
  have e: "1 + hi - lo = (hi - lo) + 1" by simp
  have "unat ((hi - lo) + 1) = (unat (hi - lo) + unat (1 :: 8 word)) mod 2 ^ LENGTH(8)"
    by (rule unat_word_ariths(1))
  then have "unat (1 + hi - lo) = (unat (hi - lo) + 1) mod 256"
    unfolding e by simp
  then show ?thesis using a b c
    by (cases "unat hi - unat lo + 1 = 256") (auto simp: mod_if)
qed

lemma sub_wrap: "\<not> off \<le> r \<Longrightarrow> unat (r - off) = 256 + unat r - unat off" for off r :: "8 word"
proof -
  assume "\<not> off \<le> r"
  then have lt: "unat r < unat off" by (simp add: word_le_nat_alt)
  have b: "unat off < 256" using unsigned_less[of off, where 'a = nat] by simp
  have "unat (r - off) = (if unat off \<le> unat r then unat r - unat off else unat r + 2 ^ 8 - unat off)"
    using unat_sub_if'[of r off] by simp
  then show ?thesis using lt by simp
qed

lemma NewEProbs_shape:
  assumes "alphabet \<noteq> []"
  shows "unat (Offset (NewEProbs mp alphabet)) + length (Probs (NewEProbs mp alphabet)) \<le> 256"
proof -
  obtain lo hi where f: "fold span_step alphabet (255, 0) = (lo, hi)" by (cases "fold span_step alphabet (255, 0)")
  obtain x where "x \<in> set alphabet" using assms by (cases alphabet) auto
  with fold_span_step[OF f] have le: "lo \<le> hi" by fastforce
  show ?thesis using f span_len[OF le] by (simp add: NewEProbs_def Let_def length_fold_upd)
qed

lemma Lookup_outside:
  assumes "unat (Offset ep) + length (Probs ep) \<le> 256"
    and "\<not> (unat (Offset ep) \<le> unat r \<and> unat r < unat (Offset ep) + length (Probs ep))"
  shows "Lookup mp ep r = mp"
proof -
  have "length (Probs ep) \<le> unat (r - Offset ep)"
  proof (cases "Offset ep \<le> r")
    case True
    then have "unat (r - Offset ep) = unat r - unat (Offset ep)" by (simp add: unat_sub)
    then show ?thesis using assms True by (simp add: word_le_nat_alt)
  next
    case False
    then have "unat (r - Offset ep) = 256 + unat r - unat (Offset ep)"
      by (rule sub_wrap)
    moreover have "unat r < unat (Offset ep)" using False by (simp add: word_le_nat_alt)
    ultimately show ?thesis using assms(1) by simp
  qed
  then show ?thesis by (simp add: Lookup_def Let_def)
qed

lemma Set_EProbs_shape:
  "Set_EProbs ep r p = Inr ep' \<Longrightarrow> Offset ep' = Offset ep \<and> length (Probs ep') = length (Probs ep)"
  by (auto simp: Set_EProbs_def split: if_splits)

lemma MaxFloat64_pos: "0 < MaxFloat64"
proof -
  have "(2::real) ^ 971 < 2 ^ 1024" by (rule power_strict_increasing) simp_all
  then show ?thesis by (simp add: MaxFloat64_def)
qed

subsection \<open>The flat table represents the reference table\<close>

lemma reset_scores: "scores (reset mp t) = replicate (length (scores t)) mp"
proof -
  have "k \<le> length xs \<Longrightarrow> fold (\<lambda>i s. s[i := mp]) [0..<k] xs = replicate k mp @ drop k xs" for k and xs :: "'a list"
  proof (induction k)
    case 0 then show ?case by simp
  next
    case (Suc k)
    then have "fold (\<lambda>i s. s[i := mp]) [0..<Suc k] xs = (replicate k mp @ drop k xs)[k := mp]" by simp
    also have "\<dots> = replicate k mp @ (drop k xs)[0 := mp]" by (simp add: list_update_append)
    also have "\<dots> = replicate k mp @ mp # drop (Suc k) xs"
      using Suc.prems Cons_nth_drop_Suc[of k xs] by (cases "drop k xs") auto
    also have "\<dots> = replicate (Suc k) mp @ drop (Suc k) xs" by (simp add: replicate_app_Cons_same)
    finally show ?case .
  qed
  from this[of "length (scores t)" "scores t"] show ?thesis by (simp add: reset_def)
qed

lemma reset_nodes: "nodes (reset mp t) = nodes t"
  by (simp add: reset_def)

lemma reset_eq_AllocTable:
  "nodes t = N + 1 \<Longrightarrow> length (scores t) = 3 * (N + 1) * (L + 1) \<Longrightarrow> reset mp t = AllocTable mp N L"
  by (rule DynamicTable.equality) (simp_all add: AllocTable_def Let_def reset_scores reset_nodes)

lemma state_int_lt: "st \<in> {Match, Deletion, Insertion} \<Longrightarrow> state_int st < 3"
  by auto

lemma state_int_inj:
  "st \<in> {Match, Deletion, Insertion} \<Longrightarrow> st' \<in> {Match, Deletion, Insertion} \<Longrightarrow>
   state_int st = state_int st' \<Longrightarrow> st = st'"
  by auto

lemma index_alt: "nodes t = N + 1 \<Longrightarrow> index t st n ob = (ob * (N + 1) + n) * 3 + state_int st"
  by (simp add: index_def)

lemma index_lt:
  assumes "nodes t = N + 1" "length (scores t) = 3 * (N + 1) * (L + 1)" "valid_cell N L (st, n, ob)"
  shows "index t st n ob < length (scores t)"
proof -
  have a: "ob * (N + 1) + n < (L + 1) * (N + 1)"
    using assms(3) by (intro idx_lt) (simp_all add: valid_cell_def)
  have s: "state_int st < 3" using assms(3) state_int_lt[of st] by (simp add: valid_cell_def)
  have "(ob * (N + 1) + n) * 3 + state_int st < ((L + 1) * (N + 1)) * 3"
    using a s by (rule idx_lt)
  also have "((L + 1) * (N + 1)) * 3 = length (scores t)"
    unfolding assms(2) by (simp only: mult.commute mult.left_commute)
  finally show ?thesis unfolding index_alt[OF assms(1)] .
qed

lemma index_inj:
  assumes "nodes t = N + 1" "valid_cell N L (st, n, ob)" "valid_cell N L (st', n', ob')"
    and "index t st n ob = index t st' n' ob'"
  shows "st = st' \<and> n = n' \<and> ob = ob'"
proof -
  have e: "(ob * (N + 1) + n) * 3 + state_int st = (ob' * (N + 1) + n') * 3 + state_int st'"
    using assms(4) unfolding index_alt[OF assms(1)] .
  have s: "state_int st < 3" "state_int st' < 3" "n < N + 1" "n' < N + 1"
    using assms(2,3) state_int_lt[of st] state_int_lt[of st'] by (simp_all add: valid_cell_def)
  have a: "ob * (N + 1) + n = ob' * (N + 1) + n' \<and> state_int st = state_int st'"
    using e idx_eq[OF s(1,2), of "ob * (N + 1) + n" "ob' * (N + 1) + n'"] by blast
  then have "ob = ob' \<and> n = n'"
    using idx_eq[OF s(3,4), of ob ob'] by blast
  moreover have "st = st'" using a state_int_inj[of st st'] assms(2,3) by (simp add: valid_cell_def)
  ultimately show ?thesis by simp
qed

lemma score_at_represents:
  "represents N L t tbl \<Longrightarrow> valid_cell N L (st, n, ob) \<Longrightarrow>
   score_at t (index t st n ob) = Inr (tbl (st, n, ob))"
  using index_lt[of t N L st n ob] by (simp add: represents_def score_at_def)

lemma set_cell_represents:
  assumes r: "represents N L t tbl" and v: "valid_cell N L (st, n, ob)"
  shows "\<exists>t'. set_cell t st n ob p = Inr t' \<and> represents N L t' (propose tbl ((st, n, ob), p))"
proof -
  have sh: "nodes t = N + 1" "length (scores t) = 3 * (N + 1) * (L + 1)"
    using r by (simp_all add: represents_def)
  have lt: "index t st n ob < length (scores t)" using index_lt[OF sh v] .
  have cur: "scores t ! index t st n ob = tbl (st, n, ob)" using r v by (simp add: represents_def)
  show ?thesis
  proof (cases "p < tbl (st, n, ob)")
    case False
    then show ?thesis using r lt cur
      by (simp add: set_cell_def score_at_def Less_def propose_def Let_def)
  next
    case True
    let ?t' = "t\<lparr>scores := (scores t)[index t st n ob := p]\<rparr>"
    have s: "set_cell t st n ob p = Inr ?t'"
      using True lt cur by (simp add: set_cell_def score_at_def store_at_def Less_def Let_def)
    have i: "index ?t' st' n' ob' = index t st' n' ob'" for st' n' ob'
      by (simp add: index_def)
    have "scores ?t' ! index ?t' st' n' ob' = (tbl((st, n, ob) := p)) (st', n', ob')"
      if v': "valid_cell N L (st', n', ob')" for st' n' ob'
    proof (cases "index t st' n' ob' = index t st n ob")
      case True
      with index_inj[OF sh(1) v' v] have "st' = st \<and> n' = n \<and> ob' = ob" by simp
      then show ?thesis using lt by (simp add: i)
    next
      case False
      then have "(st', n', ob') \<noteq> (st, n, ob)" by auto
      moreover have "scores t ! index t st' n' ob' = tbl (st', n', ob')"
        using r v' by (simp add: represents_def)
      ultimately show ?thesis using False by (auto simp: i)
    qed
    then have "represents N L ?t' (tbl((st, n, ob) := p))"
      using sh by (simp add: represents_def)
    then show ?thesis using s True by (simp add: propose_def)
  qed
qed

lemma propose_other: "fst cv \<noteq> c \<Longrightarrow> propose tbl cv c = tbl c"
  by (simp add: propose_def)

lemma viterbi_body_represents:
  assumes r: "represents N L t tbl" and n: "n < N" and ob: "ob < L"
  shows "\<exists>t'. viterbi_body mp ns seq n ob t = Inr t' \<and> represents N L t' (ref_step mp ns seq n ob tbl)"
proof -
  define tr where "tr = Transitions (ns ! n)"
  define residue where "residue = Residues seq ! ob"
  define iemit where "iemit = Lookup mp (InsEmit (ns ! n)) residue"
  define memit where "memit = (if n + 1 < length ns then Lookup mp (MatEmit (ns ! (n + 1))) residue else 0)"
  have vM: "valid_cell N L (Match, n, ob)" and vI: "valid_cell N L (Insertion, n, ob)"
    and vD: "valid_cell N L (Deletion, n, ob)" and vI1: "valid_cell N L (Insertion, n, ob + 1)"
    and vM1: "valid_cell N L (Match, n + 1, ob + 1)" and vD1: "valid_cell N L (Deletion, n + 1, ob)"
    using n ob by (simp_all add: valid_cell_def)
  let ?hm = "tbl (Match, n, ob)" and ?hi = "tbl (Insertion, n, ob)" and ?hd = "tbl (Deletion, n, ob)"
  let ?p1 = "((Insertion, n, ob + 1), ?hm + MI tr + iemit)"
  let ?p2 = "((Match, n + 1, ob + 1), ?hm + MM tr + memit)"
  let ?p3 = "((Deletion, n + 1, ob), ?hm + MD tr)"
  let ?p4 = "((Insertion, n, ob + 1), ?hi + II tr + iemit)"
  let ?p5 = "((Match, n + 1, ob + 1), ?hi + IM tr + memit)"
  let ?p6 = "((Match, n + 1, ob + 1), ?hd + DM tr + memit)"
  let ?p7 = "((Deletion, n + 1, ob), ?hd + DD tr)"
  have h0: "score_at t (index t Match n ob) = Inr ?hm" by (rule score_at_represents[OF r vM])
  obtain t1 where t1: "set_cell t Insertion n (ob + 1) (?hm + MI tr + iemit) = Inr t1"
      and r1: "represents N L t1 (propose tbl ?p1)"
    using set_cell_represents[OF r vI1] by blast
  obtain t2 where t2: "set_cell t1 Match (n + 1) (ob + 1) (?hm + MM tr + memit) = Inr t2"
      and r2: "represents N L t2 (propose (propose tbl ?p1) ?p2)"
    using set_cell_represents[OF r1 vM1] by blast
  obtain t3 where t3: "set_cell t2 Deletion (n + 1) ob (?hm + MD tr) = Inr t3"
      and r3: "represents N L t3 (propose (propose (propose tbl ?p1) ?p2) ?p3)"
    using set_cell_represents[OF r2 vD1] by blast
  have "score_at t3 (index t3 Insertion n ob) = Inr (propose (propose (propose tbl ?p1) ?p2) ?p3 (Insertion, n, ob))"
    by (rule score_at_represents[OF r3 vI])
  then have h3: "score_at t3 (index t3 Insertion n ob) = Inr ?hi"
    by (simp add: propose_other)
  obtain t4 where t4: "set_cell t3 Insertion n (ob + 1) (?hi + II tr + iemit) = Inr t4"
      and r4: "represents N L t4 (propose (propose (propose (propose tbl ?p1) ?p2) ?p3) ?p4)"
    using set_cell_represents[OF r3 vI1] by blast
  obtain t5 where t5: "set_cell t4 Match (n + 1) (ob + 1) (?hi + IM tr + memit) = Inr t5"
      and r5: "represents N L t5 (propose (propose (propose (propose (propose tbl ?p1) ?p2) ?p3) ?p4) ?p5)"
    using set_cell_represents[OF r4 vM1] by blast
  have "score_at t5 (index t5 Deletion n ob)
          = Inr (propose (propose (propose (propose (propose tbl ?p1) ?p2) ?p3) ?p4) ?p5 (Deletion, n, ob))"
    by (rule score_at_represents[OF r5 vD])
  then have h5: "score_at t5 (index t5 Deletion n ob) = Inr ?hd"
    by (simp add: propose_other)
  obtain t6 where t6: "set_cell t5 Match (n + 1) (ob + 1) (?hd + DM tr + memit) = Inr t6"
      and r6: "represents N L t6 (propose (propose (propose (propose (propose (propose tbl ?p1) ?p2) ?p3) ?p4) ?p5) ?p6)"
    using set_cell_represents[OF r5 vM1] by blast
  obtain t7 where t7: "set_cell t6 Deletion (n + 1) ob (?hd + DD tr) = Inr t7"
      and r7: "represents N L t7 (propose (propose (propose (propose (propose (propose (propose tbl ?p1) ?p2) ?p3) ?p4) ?p5) ?p6) ?p7)"
    using set_cell_represents[OF r6 vD1] by blast
  have body: "viterbi_body mp ns seq n ob t = Inr t7"
    unfolding viterbi_body_def Let_def
    unfolding tr_def[symmetric] residue_def[symmetric]
    unfolding iemit_def[symmetric]
    unfolding memit_def[symmetric]
    by (simp only: h0 bind_Inr t1 t2 t3 h3 t4 t5 h5 t6 t7)
  have ref: "ref_step mp ns seq n ob tbl
      = propose (propose (propose (propose (propose (propose (propose tbl ?p1) ?p2) ?p3) ?p4) ?p5) ?p6) ?p7"
    unfolding ref_step_def Let_def proposals_def
    unfolding tr_def[symmetric] residue_def[symmetric]
    unfolding iemit_def[symmetric]
    unfolding memit_def[symmetric]
    by (simp only: foldl.simps)
  show ?thesis using body r7 ref by simp
qed

lemma inner_loop_represents:
  assumes r: "represents N L t tbl" and n: "n < N"
  shows "k \<le> L \<Longrightarrow>
     \<exists>t'. fold (\<lambda>obs acc. bind acc (viterbi_body mp ns seq n obs)) [0..<k] (Inr t) = Inr t'
        \<and> represents N L t' (fold (ref_step mp ns seq n) [0..<k] tbl)"
proof (induction k)
  case 0
  then show ?case using r by simp
next
  case (Suc k)
  then obtain t' where t': "fold (\<lambda>obs acc. bind acc (viterbi_body mp ns seq n obs)) [0..<k] (Inr t) = Inr t'"
      "represents N L t' (fold (ref_step mp ns seq n) [0..<k] tbl)"
    by auto
  have "k < L" using Suc.prems by simp
  from viterbi_body_represents[OF t'(2) n this, of mp ns seq]
  show ?case using t'(1) by simp
qed

lemma outer_loop_represents:
  assumes r: "represents N L t tbl"
  shows "k \<le> N \<Longrightarrow>
     \<exists>t'. fold (\<lambda>node acc. fold (\<lambda>obs acc. bind acc (viterbi_body mp ns seq node obs)) [0..<L] acc)
             [0..<k] (Inr t) = Inr t'
        \<and> represents N L t' (fold (\<lambda>n tbl. fold (ref_step mp ns seq n) [0..<L] tbl) [0..<k] tbl)"
proof (induction k)
  case 0
  then show ?case using r by simp
next
  case (Suc k)
  then obtain t' where t': "fold (\<lambda>node acc. fold (\<lambda>obs acc. bind acc (viterbi_body mp ns seq node obs)) [0..<L] acc)
             [0..<k] (Inr t) = Inr t'"
      "represents N L t' (fold (\<lambda>n tbl. fold (ref_step mp ns seq n) [0..<L] tbl) [0..<k] tbl)"
    by auto
  have "k < N" using Suc.prems by simp
  from inner_loop_represents[OF t'(2) this, of L mp ns seq]
  show ?case using t'(1) by simp
qed

lemma init_represents:
  assumes "nodes t = N + 1" "length (scores t) = 3 * (N + 1) * (L + 1)"
  shows "\<exists>t'. store_at (reset mp t) (index (reset mp t) Match 0 0) 0 = Inr t'
           \<and> represents N L t' (ref_init mp)"
proof -
  let ?t = "reset mp t"
  let ?t' = "?t\<lparr>scores := (scores ?t)[index ?t Match 0 0 := 0]\<rparr>"
  have sh: "nodes ?t = N + 1" "length (scores ?t) = 3 * (N + 1) * (L + 1)"
    using assms by (simp_all add: reset_scores reset_nodes)
  have v0: "valid_cell N L (Match, 0, 0)" by (simp add: valid_cell_def)
  have lt: "index ?t Match 0 0 < length (scores ?t)" by (rule index_lt[OF sh v0])
  have s: "store_at ?t (index ?t Match 0 0) 0 = Inr ?t'"
    using lt by (simp add: store_at_def)
  have i: "index ?t' st n ob = index ?t st n ob" for st n ob by (simp add: index_def)
  have "scores ?t' ! index ?t' st n ob = ref_init mp (st, n, ob)"
    if v: "valid_cell N L (st, n, ob)" for st n ob
  proof (cases "index ?t st n ob = index ?t Match 0 0")
    case True
    with index_inj[OF sh(1) v v0] have "st = Match \<and> n = 0 \<and> ob = 0" by simp
    then show ?thesis using lt by (simp add: i ref_init_def)
  next
    case False
    have ne: "(st, n, ob) \<noteq> (Match, 0, 0)"
    proof
      assume "(st, n, ob) = (Match, 0, 0)"
      then show False using False by simp
    qed
    have "index ?t st n ob < length (scores ?t)" by (rule index_lt[OF sh v])
    then have "scores ?t ! index ?t st n ob = mp" by (simp add: reset_scores)
    moreover have "ref_init mp (st, n, ob) = mp" using ne by (auto simp: ref_init_def)
    ultimately show ?thesis using False by (simp add: i)
  qed
  then have "represents N L ?t' (ref_init mp)"
    using sh by (simp add: represents_def)
  then show ?thesis using s by simp
qed

lemma ViterbiScoreMem_ref:
  assumes "nodes t = length (nodes_of hp hmm) + 1"
    and "length (scores t) = 3 * (length (nodes_of hp hmm) + 1) * (Len seq + 1)"
  shows "ViterbiScoreMem mp hp hmm seq t = Inr (viterbi_ref mp (nodes_of hp hmm) seq)"
proof -
  let ?ns = "nodes_of hp hmm"
  let ?N = "length ?ns" and ?L = "Len seq"
  obtain t0 where t0: "store_at (reset mp t) (index (reset mp t) Match 0 0) 0 = Inr t0"
      "represents ?N ?L t0 (ref_init mp)"
    using init_represents[OF assms, of mp] by blast
  obtain t1 where t1: "viterbi_loops mp ?ns seq t0 = Inr t1" "represents ?N ?L t1 (ref_fill mp ?ns seq)"
    using outer_loop_represents[OF t0(2), of ?N mp ?ns seq]
    by (auto simp: viterbi_loops_def ref_fill_def)
  have v: "valid_cell ?N ?L (Match, ?N, ?L)" by (simp add: valid_cell_def)
  have "score_at t1 (index t1 Match ?N ?L) = Inr (ref_fill mp ?ns seq (Match, ?N, ?L))"
    by (rule score_at_represents[OF t1(2) v])
  then show ?thesis
    using t0(1) t1(1) by (simp add: ViterbiScoreMem_def Let_def viterbi_ref_def)
qed

lemma AllocTable_shape:
  "nodes (AllocTable mp N L) = N + 1" "length (scores (AllocTable mp N L)) = 3 * (N + 1) * (L + 1)"
  by (simp_all add: AllocTable_def Let_def reset_scores reset_nodes)

lemma ViterbiScore_ref:
  "ViterbiScore mp hp hmm seq = Inr (viterbi_ref mp (nodes_of hp hmm) seq)"
  unfolding ViterbiScore_def Let_def
  by (rule ViterbiScoreMem_ref) (simp_all add: AllocTable_shape)

subsection \<open>Scenario C on the reference program\<close>

lemma scenario_ref:
  fixes mp :: "'p::{zero,plus,ord}"
  assumes "minprob_arith mp"
    and "Transitions n1 = scenario_trans mp" and "Transitions n2 = scenario_trans mp"
    and "Lookup mp (MatEmit n2) 88 = 0"
    and "Lookup mp (InsEmit n1) 88 = mp" and "Lookup mp (InsEmit n2) 88 = mp"
    and "Residues seq = [88, 88]"
  shows "viterbi_ref mp [n1, n2] seq = 0"
proof -
  have f: "(0::'p) + 0 = 0" "0 + mp = mp" "mp + 0 = mp" "0 < mp"
     "\<not> mp < mp" "\<not> mp < 0" "\<not> mp + mp < mp" "\<not> mp + mp + mp < mp"
    using assms(1) by (simp_all add: minprob_arith_def)
  have u: "[0..<2] = [0, 1]" by (simp add: upt_rec)
  show ?thesis
    unfolding viterbi_ref_def ref_fill_def
    by (simp add: u Len_def assms(2-7) scenario_trans_def ref_step_def
        proposals_def propose_def ref_init_def f Let_def)
qed

lemma minprob_arith_MaxFloat64: "minprob_arith MaxFloat64"
  using MaxFloat64_pos by (simp add: minprob_arith_def)

subsection \<open>Swapping the two sequences\<close>

lemma max3_swap: "max3 x y z = max3 x z y"
  using signed.less_linear[of y z] by (auto simp: max3_def dest: signed.less_asym)

lemma cell_sym:
  "(\<And>x y. s x y = s y x) \<Longrightarrow> cell b a s j i = cell a b s i j"
proof (induction a b s i j rule: cell.induct)
  case (1 a b s j)
  then show ?case by (simp add: cell_col0)
next
  case (2 a b s i)
  then show ?case by simp
next
  case (3 a b s i j)
  have e: "s (b ! j) (a ! i) = s (a ! i) (b ! j)" by (rule 3(4))
  have ih: "cell b a s j i = cell a b s i j" "cell b a s (Suc j) i = cell a b s i (Suc j)"
    "cell b a s j (Suc i) = cell a b s (Suc i) j"
    using 3 by simp_all
  have "cell b a s (Suc j) (Suc i)
      = max3 (cell b a s j i + s (b ! j) (a ! i)) (cell b a s j (Suc i) + s gap gap)
          (cell b a s (Suc j) i + s gap gap)" by simp
  also have "\<dots> = max3 (cell a b s i j + s (a ! i) (b ! j)) (cell a b s (Suc i) j + s gap gap)
          (cell a b s i (Suc j) + s gap gap)"
    unfolding ih e ..
  also have "\<dots> = cell a b s (Suc i) (Suc j)"
    by (simp add: max3_swap[of _ "cell a b s (Suc i) j + s gap gap"])
  finally show ?case .
qed

text \<open>One step of the traceback, with the matrix read as the recurrence.\<close>

lemma traceback_cell:
  assumes M: "\<And>i j. i \<le> length a \<Longrightarrow> j \<le> length b \<Longrightarrow> m ! (i * c + j) = cell a b s i j"
    and c: "c = length b + 1" and g: "g = s gap gap"
    and i: "i \<le> length a" and j: "j \<le> length b"
  shows "traceback m a b s g c i j al =
     (if i = 0 \<and> j = 0 then Inr al
      else if i > 0 \<and> j > 0 \<and> cell a b s i j = cell a b s (i - 1) (j - 1) + s (a ! (i - 1)) (b ! (j - 1))
      then traceback m a b s g c (i - 1) (j - 1) \<lparr>A = A al @ [a ! (i - 1)], B = B al @ [b ! (j - 1)]\<rparr>
      else if i > 0 \<and> cell a b s i j = cell a b s (i - 1) j + g
      then traceback m a b s g c (i - 1) j \<lparr>A = A al @ [a ! (i - 1)], B = B al @ [gap]\<rparr>
      else if j > 0 \<and> cell a b s i j = cell a b s i (j - 1) + g
      then traceback m a b s g c i (j - 1) \<lparr>A = A al @ [gap], B = B al @ [b ! (j - 1)]\<rparr>
      else Inl (NoPath i j))"
proof -
  let ?p = "i * c + j"
  have p1: "m ! (?p - c - 1) = cell a b s (i - 1) (j - 1)" if h: "i > 0" "j > 0"
  proof -
    obtain i' j' where "i = Suc i'" "j = Suc j'" using h by (cases i; cases j) auto
    then have "?p - c - 1 = i' * c + j'" by simp
    then show ?thesis using M[of "i - 1" "j - 1"] i j \<open>i = Suc i'\<close> \<open>j = Suc j'\<close> by simp
  qed
  have p2: "m ! (?p - c) = cell a b s (i - 1) j" if h: "i > 0"
  proof -
    obtain i' where "i = Suc i'" using h by (cases i) auto
    then have "?p - c = i' * c + j" by simp
    then show ?thesis using M[of "i - 1" j] i j \<open>i = Suc i'\<close> by simp
  qed
  have p3: "m ! (?p - 1) = cell a b s i (j - 1)" if h: "j > 0"
  proof -
    obtain j' where "j = Suc j'" using h by (cases j) auto
    then have "?p - 1 = i * c + j'" by simp
    then show ?thesis using M[of i "j - 1"] i j \<open>j = Suc j'\<close> by simp
  qed
  have p0: "m ! ?p = cell a b s i j" using M[OF i j] .
  show ?thesis
    apply (subst traceback.simps)
    unfolding Let_def p0
    using p1 p2 p3 by (cases "i > 0"; cases "j > 0") auto
qed

lemma path_tie_col0: "path_tie a b s i 0 = False"
  by (cases i) simp_all

lemma path_tie_step:
  assumes "\<not> path_tie a b s i j" and "i > 0" and "j > 0"
  shows "\<not> (cell a b s i j \<noteq> cell a b s (i - 1) (j - 1) + s (a ! (i - 1)) (b ! (j - 1))
            \<and> cell a b s i j = cell a b s (i - 1) j + s gap gap
            \<and> cell a b s i j = cell a b s i (j - 1) + s gap gap)"
    and "cell a b s i j = cell a b s (i - 1) (j - 1) + s (a ! (i - 1)) (b ! (j - 1))
           \<Longrightarrow> \<not> path_tie a b s (i - 1) (j - 1)"
    and "cell a b s i j \<noteq> cell a b s (i - 1) (j - 1) + s (a ! (i - 1)) (b ! (j - 1))
           \<Longrightarrow> cell a b s i j = cell a b s (i - 1) j + s gap gap \<Longrightarrow> \<not> path_tie a b s (i - 1) j"
    and "cell a b s i j \<noteq> cell a b s (i - 1) (j - 1) + s (a ! (i - 1)) (b ! (j - 1))
           \<Longrightarrow> cell a b s i j \<noteq> cell a b s (i - 1) j + s gap gap \<Longrightarrow> \<not> path_tie a b s i (j - 1)"
proof -
  obtain i' j' where ij: "i = Suc i'" "j = Suc j'" using assms(2,3) by (cases i; cases j) auto
  have p: "\<not> gap_tie a b s i' j'"
    "\<not> (if cell a b s (Suc i') (Suc j') = cell a b s i' j' + s (a ! i') (b ! j')
          then path_tie a b s i' j'
          else if cell a b s (Suc i') (Suc j') = cell a b s i' (Suc j') + s gap gap
          then path_tie a b s i' (Suc j')
          else path_tie a b s (Suc i') j')"
    using assms(1) unfolding ij path_tie.simps by blast+
  show "\<not> (cell a b s i j \<noteq> cell a b s (i - 1) (j - 1) + s (a ! (i - 1)) (b ! (j - 1))
            \<and> cell a b s i j = cell a b s (i - 1) j + s gap gap
            \<and> cell a b s i j = cell a b s i (j - 1) + s gap gap)"
    using p(1) unfolding ij gap_tie_def by (simp del: cell.simps)
  show "cell a b s i j = cell a b s (i - 1) (j - 1) + s (a ! (i - 1)) (b ! (j - 1))
           \<Longrightarrow> \<not> path_tie a b s (i - 1) (j - 1)"
    using p(2) unfolding ij by (simp del: cell.simps path_tie.simps split: if_splits)
  show "cell a b s i j \<noteq> cell a b s (i - 1) (j - 1) + s (a ! (i - 1)) (b ! (j - 1))
           \<Longrightarrow> cell a b s i j = cell a b s (i - 1) j + s gap gap \<Longrightarrow> \<not> path_tie a b s (i - 1) j"
    using p(2) unfolding ij by (simp del: cell.simps path_tie.simps split: if_splits)
  show "cell a b s i j \<noteq> cell a b s (i - 1) (j - 1) + s (a ! (i - 1)) (b ! (j - 1))
           \<Longrightarrow> cell a b s i j \<noteq> cell a b s (i - 1) j + s gap gap \<Longrightarrow> \<not> path_tie a b s i (j - 1)"
    using p(2) unfolding ij by (simp del: cell.simps path_tie.simps split: if_splits)
qed

lemma traceback_sym:
  assumes M: "\<And>i j. i \<le> length a \<Longrightarrow> j \<le> length b \<Longrightarrow> m ! (i * c + j) = cell a b s i j"
    and M': "\<And>j i. j \<le> length b \<Longrightarrow> i \<le> length a \<Longrightarrow> m' ! (j * c' + i) = cell b a s j i"
    and c: "c = length b + 1" and c': "c' = length a + 1" and g: "g = s gap gap"
    and sym: "\<And>x y. s x y = s y x"
  shows "i \<le> length a \<Longrightarrow> j \<le> length b \<Longrightarrow> \<not> path_tie a b s i j \<Longrightarrow>
     traceback m a b s g c i j al = Inr r \<Longrightarrow>
     traceback m' b a s g c' j i (transpose_alignment al) = Inr (transpose_alignment r)"
proof (induction "i + j" arbitrary: i j al rule: less_induct)
  case less
  note i = less.prems(1) and j = less.prems(2)
  let ?D = "i > 0 \<and> j > 0 \<and> cell a b s i j = cell a b s (i - 1) (j - 1) + s (a ! (i - 1)) (b ! (j - 1))"
  let ?V = "i > 0 \<and> cell a b s i j = cell a b s (i - 1) j + g"
  let ?H = "j > 0 \<and> cell a b s i j = cell a b s i (j - 1) + g"
  have cs: "cell b a s j i = cell a b s i j" "cell b a s (j - 1) (i - 1) = cell a b s (i - 1) (j - 1)"
    "cell b a s (j - 1) i = cell a b s i (j - 1)" "cell b a s j (i - 1) = cell a b s (i - 1) j"
    using cell_sym[of s b a] sym by simp_all
  have T: "traceback m a b s g c i j al =
     (if i = 0 \<and> j = 0 then Inr al
      else if ?D
      then traceback m a b s g c (i - 1) (j - 1) \<lparr>A = A al @ [a ! (i - 1)], B = B al @ [b ! (j - 1)]\<rparr>
      else if ?V
      then traceback m a b s g c (i - 1) j \<lparr>A = A al @ [a ! (i - 1)], B = B al @ [gap]\<rparr>
      else if ?H
      then traceback m a b s g c i (j - 1) \<lparr>A = A al @ [gap], B = B al @ [b ! (j - 1)]\<rparr>
      else Inl (NoPath i j))"
    by (rule traceback_cell[OF M c g i j])
  let ?tal = "transpose_alignment al"
  have T0: "traceback m' b a s g c' j i ?tal =
     (if j = 0 \<and> i = 0 then Inr ?tal
      else if j > 0 \<and> i > 0 \<and> cell b a s j i = cell b a s (j - 1) (i - 1) + s (b ! (j - 1)) (a ! (i - 1))
      then traceback m' b a s g c' (j - 1) (i - 1) \<lparr>A = A ?tal @ [b ! (j - 1)], B = B ?tal @ [a ! (i - 1)]\<rparr>
      else if j > 0 \<and> cell b a s j i = cell b a s (j - 1) i + g
      then traceback m' b a s g c' (j - 1) i \<lparr>A = A ?tal @ [b ! (j - 1)], B = B ?tal @ [gap]\<rparr>
      else if i > 0 \<and> cell b a s j i = cell b a s j (i - 1) + g
      then traceback m' b a s g c' j (i - 1) \<lparr>A = A ?tal @ [gap], B = B ?tal @ [a ! (i - 1)]\<rparr>
      else Inl (NoPath j i))"
    by (rule traceback_cell[OF M' c' g j i])
  have acc: "\<lparr>A = A ?tal @ [b ! (j - 1)], B = B ?tal @ [a ! (i - 1)]\<rparr>
        = transpose_alignment \<lparr>A = A al @ [a ! (i - 1)], B = B al @ [b ! (j - 1)]\<rparr>"
      "\<lparr>A = A ?tal @ [b ! (j - 1)], B = B ?tal @ [gap]\<rparr>
        = transpose_alignment \<lparr>A = A al @ [gap], B = B al @ [b ! (j - 1)]\<rparr>"
      "\<lparr>A = A ?tal @ [gap], B = B ?tal @ [a ! (i - 1)]\<rparr>
        = transpose_alignment \<lparr>A = A al @ [a ! (i - 1)], B = B al @ [gap]\<rparr>"
    by (simp_all add: transpose_alignment_def)
  have e: "s (b ! (j - 1)) (a ! (i - 1)) = s (a ! (i - 1)) (b ! (j - 1))" by (rule sym)
  have T': "traceback m' b a s g c' j i ?tal =
     (if j = 0 \<and> i = 0 then Inr ?tal
      else if j > 0 \<and> i > 0 \<and> cell a b s i j = cell a b s (i - 1) (j - 1) + s (a ! (i - 1)) (b ! (j - 1))
      then traceback m' b a s g c' (j - 1) (i - 1)
             (transpose_alignment \<lparr>A = A al @ [a ! (i - 1)], B = B al @ [b ! (j - 1)]\<rparr>)
      else if ?H
      then traceback m' b a s g c' (j - 1) i
             (transpose_alignment \<lparr>A = A al @ [gap], B = B al @ [b ! (j - 1)]\<rparr>)
      else if ?V
      then traceback m' b a s g c' j (i - 1)
             (transpose_alignment \<lparr>A = A al @ [a ! (i - 1)], B = B al @ [gap]\<rparr>)
      else Inl (NoPath j i))"
    using T0 unfolding cs e acc .
  note pt = path_tie_step[OF less.prems(3), unfolded g[symmetric]]
  have notie: "\<not> ?H" if "\<not> ?D" "?V"
  proof (cases "j > 0")
    case False then show ?thesis by simp
  next
    case True
    then show ?thesis using that pt(1) by blast
  qed
  have nextD: "\<not> path_tie a b s (i - 1) (j - 1)" if "?D"
    using that pt(2) by blast
  have nextV: "\<not> path_tie a b s (i - 1) j" if "\<not> ?D" "?V"
  proof (cases "j > 0")
    case False then show ?thesis by (simp add: path_tie_col0)
  next
    case True then show ?thesis using that pt(3) by blast
  qed
  have nextH: "\<not> path_tie a b s i (j - 1)" if "\<not> ?D" "\<not> ?V" "?H"
  proof (cases "i > 0")
    case False then show ?thesis by simp
  next
    case True then show ?thesis using that pt(4) by blast
  qed
  consider (z) "i = 0 \<and> j = 0" | (d) "\<not> (i = 0 \<and> j = 0)" ?D | (v) "\<not> (i = 0 \<and> j = 0)" "\<not> ?D" ?V
    | (h) "\<not> (i = 0 \<and> j = 0)" "\<not> ?D" "\<not> ?V" ?H | (n) "\<not> (i = 0 \<and> j = 0)" "\<not> ?D" "\<not> ?V" "\<not> ?H"
    by blast
  then show ?case
  proof cases
    case z
    then show ?thesis using T T' less.prems(4) by auto
  next
    case d
    have lt: "(i - 1) + (j - 1) < i + j" using d by simp
    have "traceback m a b s g c (i - 1) (j - 1) \<lparr>A = A al @ [a ! (i - 1)], B = B al @ [b ! (j - 1)]\<rparr> = Inr r"
      using T d less.prems(4) by auto
    from less.hyps[OF lt _ _ nextD this] i j d
    show ?thesis using T' d by auto
  next
    case v
    have lt: "(i - 1) + j < i + j" using v by simp
    have "traceback m a b s g c (i - 1) j \<lparr>A = A al @ [a ! (i - 1)], B = B al @ [gap]\<rparr> = Inr r"
      using T v less.prems(4) by auto
    from less.hyps[OF lt _ _ nextV this] i j v
    show ?thesis using T' v notie by auto
  next
    case h
    have lt: "i + (j - 1) < i + j" using h by simp
    have "traceback m a b s g c i (j - 1) \<lparr>A = A al @ [gap], B = B al @ [b ! (j - 1)]\<rparr> = Inr r"
      using T h less.prems(4) by auto
    from less.hyps[OF lt _ _ nextH this] i j h
    show ?thesis using T' h by auto
  next
    case n
    then show ?thesis using T less.prems(4) by auto
  qed
qed

lemma NeedlemanWunsch_sym:
  assumes sym: "\<And>x y. s x y = s y x" and tie: "\<not> path_tie a b s (length a) (length b)"
  shows "\<exists>al. NeedlemanWunsch a b s = Inr al \<and> NeedlemanWunsch b a s = Inr (transpose_alignment al)"
proof -
  let ?e = "\<lparr>A = [], B = []\<rparr>"
  have te: "transpose_alignment ?e = ?e" by (simp add: transpose_alignment_def)
  have "\<exists>xs ys. traceback (nw_matrix a b s) a b s (s gap gap) (length b + 1) (length a) (length b) ?e
          = Inr \<lparr>A = A ?e @ xs, B = B ?e @ ys\<rparr>
        \<and> length xs = length ys
        \<and> filter (\<lambda>x. x \<noteq> gap) xs = rev (filter (\<lambda>x. x \<noteq> gap) (take (length a) a))
        \<and> filter (\<lambda>x. x \<noteq> gap) ys = rev (filter (\<lambda>x. x \<noteq> gap) (take (length b) b))"
    by (rule traceback_result[where c = "length b + 1"]) (rule nw_matrix_cell, simp_all)
  then obtain xs ys where t: "traceback (nw_matrix a b s) a b s (s gap gap) (length b + 1) (length a) (length b) ?e
          = Inr \<lparr>A = xs, B = ys\<rparr>" "length xs = length ys"
    by auto
  have "traceback (nw_matrix b a s) b a s (s gap gap) (length a + 1) (length b) (length a) (transpose_alignment ?e)
          = Inr (transpose_alignment \<lparr>A = xs, B = ys\<rparr>)"
  proof (rule traceback_sym[where m = "nw_matrix a b s" and c = "length b + 1", OF _ _ _ _ _ _ _ _ tie t(1)])
    show "nw_matrix a b s ! (i * (length b + 1) + j) = cell a b s i j"
      if "i \<le> length a" "j \<le> length b" for i j
      using that by (rule nw_matrix_cell)
    show "nw_matrix b a s ! (j * (length a + 1) + i) = cell b a s j i"
      if "j \<le> length b" "i \<le> length a" for j i
      using that by (rule nw_matrix_cell)
  qed (simp_all add: sym)
  then have t': "traceback (nw_matrix b a s) b a s (s gap gap) (length a + 1) (length b) (length a) ?e
          = Inr \<lparr>A = ys, B = xs\<rparr>"
    by (simp add: transpose_alignment_def)
  have "NeedlemanWunsch a b s = Inr \<lparr>A = rev xs, B = rev ys\<rparr>"
    using t(1) reverse_loop_rev[OF t(2)] by (simp add: NeedlemanWunsch_def Let_def newAlignment_def)
  moreover have "NeedlemanWunsch b a s = Inr \<lparr>A = rev ys, B = rev xs\<rparr>"
    using t' reverse_loop_rev[OF t(2)[symmetric]] by (simp add: NeedlemanWunsch_def Let_def newAlignment_def)
  ultimately show ?thesis by (simp add: transpose_alignment_def)
qed

lemma tie_subst_sym: "tie_subst x y = tie_subst y x"
  by (auto simp: tie_subst_def)

lemma scenario_subst_sym: "scenario_subst x y = scenario_subst y x"
  by (auto simp: scenario_subst_def)

text \<open>
  Conversely, when the reference has no gap symbol, a tie on the path makes the two
  alignments differ: the condition on the path is exactly what transposition needs.
\<close>

lemma traceback_prefix:
  assumes M: "\<And>i j. i \<le> length a \<Longrightarrow> j \<le> length b \<Longrightarrow> m ! (i * c + j) = cell a b s i j"
    and c: "c = length b + 1" and g: "g = s gap gap"
    and "i \<le> length a" "j \<le> length b"
    and "traceback m a b s g c i j al = Inr r"
  shows "\<exists>xs ys. r = \<lparr>A = A al @ xs, B = B al @ ys\<rparr>"
  using traceback_result[OF M c g assms(4,5), of al] assms(6) by auto

lemma traceback_tie_differs:
  assumes M: "\<And>i j. i \<le> length a \<Longrightarrow> j \<le> length b \<Longrightarrow> m ! (i * c + j) = cell a b s i j"
    and M': "\<And>j i. j \<le> length b \<Longrightarrow> i \<le> length a \<Longrightarrow> m' ! (j * c' + i) = cell b a s j i"
    and c: "c = length b + 1" and c': "c' = length a + 1" and g: "g = s gap gap"
    and sym: "\<And>x y. s x y = s y x"
    and nogap: "gap \<notin> set a"
  shows "i \<le> length a \<Longrightarrow> j \<le> length b \<Longrightarrow> path_tie a b s i j \<Longrightarrow>
     traceback m a b s g c i j al = Inr r \<Longrightarrow>
     traceback m' b a s g c' j i (transpose_alignment al) = Inr r' \<Longrightarrow>
     r' \<noteq> transpose_alignment r"
proof (induction "i + j" arbitrary: i j al rule: less_induct)
  case less
  note i = less.prems(1) and j = less.prems(2)
  have ipos: "i > 0" and jpos: "j > 0"
    using less.prems(3) by (cases i; cases j; simp)+
  then obtain i' j' where ij: "i = Suc i'" "j = Suc j'" by (cases i; cases j) auto
  let ?D = "cell a b s i j = cell a b s (i - 1) (j - 1) + s (a ! (i - 1)) (b ! (j - 1))"
  let ?V = "cell a b s i j = cell a b s (i - 1) j + g"
  let ?H = "cell a b s i j = cell a b s i (j - 1) + g"
  have cs: "cell b a s j i = cell a b s i j" "cell b a s (j - 1) (i - 1) = cell a b s (i - 1) (j - 1)"
    "cell b a s (j - 1) i = cell a b s i (j - 1)" "cell b a s j (i - 1) = cell a b s (i - 1) j"
    using cell_sym[of s b a] sym by simp_all
  let ?alD = "\<lparr>A = A al @ [a ! (i - 1)], B = B al @ [b ! (j - 1)]\<rparr>"
  let ?alV = "\<lparr>A = A al @ [a ! (i - 1)], B = B al @ [gap]\<rparr>"
  let ?alH = "\<lparr>A = A al @ [gap], B = B al @ [b ! (j - 1)]\<rparr>"
  have T: "traceback m a b s g c i j al =
     (if ?D then traceback m a b s g c (i - 1) (j - 1) ?alD
      else if ?V then traceback m a b s g c (i - 1) j ?alV
      else if ?H then traceback m a b s g c i (j - 1) ?alH
      else Inl (NoPath i j))"
    using traceback_cell[OF M c g i j, of al] ipos jpos by simp
  let ?tal = "transpose_alignment al"
  have e: "s (b ! (j - 1)) (a ! (i - 1)) = s (a ! (i - 1)) (b ! (j - 1))" by (rule sym)
  have T0: "traceback m' b a s g c' j i ?tal =
     (if cell b a s j i = cell b a s (j - 1) (i - 1) + s (b ! (j - 1)) (a ! (i - 1))
      then traceback m' b a s g c' (j - 1) (i - 1) \<lparr>A = A ?tal @ [b ! (j - 1)], B = B ?tal @ [a ! (i - 1)]\<rparr>
      else if cell b a s j i = cell b a s (j - 1) i + g
      then traceback m' b a s g c' (j - 1) i \<lparr>A = A ?tal @ [b ! (j - 1)], B = B ?tal @ [gap]\<rparr>
      else if cell b a s j i = cell b a s j (i - 1) + g
      then traceback m' b a s g c' j (i - 1) \<lparr>A = A ?tal @ [gap], B = B ?tal @ [a ! (i - 1)]\<rparr>
      else Inl (NoPath j i))"
    using traceback_cell[OF M' c' g j i, of ?tal] ipos jpos by simp
  have acc: "\<lparr>A = A ?tal @ [b ! (j - 1)], B = B ?tal @ [a ! (i - 1)]\<rparr> = transpose_alignment ?alD"
      "\<lparr>A = A ?tal @ [b ! (j - 1)], B = B ?tal @ [gap]\<rparr> = transpose_alignment ?alH"
      "\<lparr>A = A ?tal @ [gap], B = B ?tal @ [a ! (i - 1)]\<rparr> = transpose_alignment ?alV"
    by (simp_all add: transpose_alignment_def)
  have T': "traceback m' b a s g c' j i ?tal =
     (if ?D then traceback m' b a s g c' (j - 1) (i - 1) (transpose_alignment ?alD)
      else if ?H then traceback m' b a s g c' (j - 1) i (transpose_alignment ?alH)
      else if ?V then traceback m' b a s g c' j (i - 1) (transpose_alignment ?alV)
      else Inl (NoPath j i))"
    using T0 unfolding cs e acc .
  have pt: "gap_tie a b s i' j'
      \<or> (if cell a b s (Suc i') (Suc j') = cell a b s i' j' + s (a ! i') (b ! j')
          then path_tie a b s i' j'
          else if cell a b s (Suc i') (Suc j') = cell a b s i' (Suc j') + s gap gap
          then path_tie a b s i' (Suc j')
          else path_tie a b s (Suc i') j')"
    using less.prems(3) unfolding ij path_tie.simps .
  have gt: "gap_tie a b s i' j' \<longleftrightarrow> \<not> ?D \<and> ?V \<and> ?H"
    unfolding ij gap_tie_def g by (simp del: cell.simps)
  have im: "i - 1 \<le> length a" "j - 1 \<le> length b" using i j by simp_all
  show ?case
  proof (cases "\<not> ?D \<and> ?V \<and> ?H")
    case True
    have r: "traceback m a b s g c (i - 1) j ?alV = Inr r"
      using T True less.prems(4) by auto
    have r': "traceback m' b a s g c' (j - 1) i (transpose_alignment ?alH) = Inr r'"
      using T' True less.prems(5) by auto
    obtain xs ys where x: "r = \<lparr>A = A ?alV @ xs, B = B ?alV @ ys\<rparr>"
      using traceback_prefix[OF M c g im(1) j r] by blast
    obtain xs' ys' where x': "r' = \<lparr>A = A (transpose_alignment ?alH) @ xs', B = B (transpose_alignment ?alH) @ ys'\<rparr>"
      using traceback_prefix[OF M' c' g im(2) i r'] by blast
    have "a ! (i - 1) \<in> set a" using i ipos by simp
    then have ne: "a ! (i - 1) \<noteq> gap" using nogap by auto
    have "B r' = A al @ gap # ys'" "A r = A al @ a ! (i - 1) # xs"
      using x x' by (simp_all add: transpose_alignment_def)
    then have "B r' \<noteq> A r" using ne by simp
    then show ?thesis by (auto simp: transpose_alignment_def)
  next
    case False
    then have ngt: "\<not> gap_tie a b s i' j'" using gt by simp
    consider (d) ?D | (v) "\<not> ?D" ?V "\<not> ?H" | (h) "\<not> ?D" "\<not> ?V"
      using False by blast
    then show ?thesis
    proof cases
      case d
      have p: "path_tie a b s (i - 1) (j - 1)"
        using pt ngt d unfolding ij by (simp del: cell.simps path_tie.simps)
      have lt: "(i - 1) + (j - 1) < i + j" using ipos by simp
      have r: "traceback m a b s g c (i - 1) (j - 1) ?alD = Inr r" using T d less.prems(4) by auto
      have r': "traceback m' b a s g c' (j - 1) (i - 1) (transpose_alignment ?alD) = Inr r'"
        using T' d less.prems(5) by auto
      show ?thesis using less.hyps[OF lt _ _ p r r'] i j im by simp
    next
      case v
      have p: "path_tie a b s (i - 1) j"
        using pt ngt v unfolding ij g by (simp del: cell.simps path_tie.simps)
      have lt: "(i - 1) + j < i + j" using ipos by simp
      have r: "traceback m a b s g c (i - 1) j ?alV = Inr r" using T v less.prems(4) by auto
      have r': "traceback m' b a s g c' j (i - 1) (transpose_alignment ?alV) = Inr r'"
        using T' v less.prems(5) by auto
      show ?thesis using less.hyps[OF lt _ _ p r r'] i j im by simp
    next
      case h
      have p: "path_tie a b s i (j - 1)"
        using pt ngt h unfolding ij g by (simp del: cell.simps path_tie.simps)
      have lt: "i + (j - 1) < i + j" using jpos by simp
      show ?thesis
      proof (cases ?H)
        case True
        have r: "traceback m a b s g c i (j - 1) ?alH = Inr r" using T h True less.prems(4) by auto
        have r': "traceback m' b a s g c' (j - 1) i (transpose_alignment ?alH) = Inr r'"
          using T' h True less.prems(5) by auto
        show ?thesis using less.hyps[OF lt _ _ p r r'] i j im by simp
      next
        case False
        then show ?thesis using T h less.prems(4) by auto
      qed
    qed
  qed
qed

lemma NeedlemanWunsch_tie_differs:
  assumes sym: "\<And>x y. s x y = s y x" and nogap: "gap \<notin> set a"
    and tie: "path_tie a b s (length a) (length b)"
  shows "\<exists>al al'. NeedlemanWunsch a b s = Inr al \<and> NeedlemanWunsch b a s = Inr al'
           \<and> al' \<noteq> transpose_alignment al"
proof -
  let ?e = "\<lparr>A = [], B = []\<rparr>"
  let ?P = "\<lambda>x. x \<noteq> gap"
  have te: "transpose_alignment ?e = ?e" by (simp add: transpose_alignment_def)
  have Mab: "nw_matrix a b s ! (i * (length b + 1) + j) = cell a b s i j"
    if "i \<le> length a" "j \<le> length b" for i j
    using that by (rule nw_matrix_cell)
  have Mba: "nw_matrix b a s ! (j * (length a + 1) + i) = cell b a s j i"
    if "j \<le> length b" "i \<le> length a" for j i
    using that by (rule nw_matrix_cell)
  have "\<exists>xs ys. traceback (nw_matrix a b s) a b s (s gap gap) (length b + 1) (length a) (length b) ?e
          = Inr \<lparr>A = A ?e @ xs, B = B ?e @ ys\<rparr>
        \<and> length xs = length ys
        \<and> filter ?P xs = rev (filter ?P (take (length a) a))
        \<and> filter ?P ys = rev (filter ?P (take (length b) b))"
    by (rule traceback_result[where c = "length b + 1"]) (rule Mab, simp_all)
  then obtain xs ys where t: "traceback (nw_matrix a b s) a b s (s gap gap) (length b + 1) (length a) (length b) ?e
          = Inr \<lparr>A = xs, B = ys\<rparr>" "length xs = length ys"
    by auto
  have "\<exists>xs ys. traceback (nw_matrix b a s) b a s (s gap gap) (length a + 1) (length b) (length a) ?e
          = Inr \<lparr>A = A ?e @ xs, B = B ?e @ ys\<rparr>
        \<and> length xs = length ys
        \<and> filter ?P xs = rev (filter ?P (take (length b) b))
        \<and> filter ?P ys = rev (filter ?P (take (length a) a))"
    by (rule traceback_result[where c = "length a + 1"]) (rule Mba, simp_all)
  then obtain xs' ys' where t': "traceback (nw_matrix b a s) b a s (s gap gap) (length a + 1) (length b) (length a) ?e
          = Inr \<lparr>A = xs', B = ys'\<rparr>" "length xs' = length ys'"
    by auto
  have "\<lparr>A = xs', B = ys'\<rparr> \<noteq> transpose_alignment \<lparr>A = xs, B = ys\<rparr>"
  proof (rule traceback_tie_differs[where m = "nw_matrix a b s" and m' = "nw_matrix b a s"
        and c = "length b + 1" and c' = "length a + 1" and al = ?e, OF Mab Mba _ _ _ _ nogap _ _ tie t(1)])
    show "traceback (nw_matrix b a s) b a s (s gap gap) (length a + 1) (length b) (length a)
            (transpose_alignment ?e) = Inr \<lparr>A = xs', B = ys'\<rparr>"
      using t'(1) by (simp add: te)
  qed (simp_all add: sym)
  then have ne: "xs' \<noteq> ys \<or> ys' \<noteq> xs" by (simp add: transpose_alignment_def)
  have "NeedlemanWunsch a b s = Inr \<lparr>A = rev xs, B = rev ys\<rparr>"
    using t(1) reverse_loop_rev[OF t(2)] by (simp add: NeedlemanWunsch_def Let_def newAlignment_def)
  moreover have "NeedlemanWunsch b a s = Inr \<lparr>A = rev xs', B = rev ys'\<rparr>"
    using t'(1) reverse_loop_rev[OF t'(2)] by (simp add: NeedlemanWunsch_def Let_def newAlignment_def)
  moreover have "\<lparr>A = rev xs', B = rev ys'\<rparr> \<noteq> transpose_alignment \<lparr>A = rev xs, B = rev ys\<rparr>"
    using ne by (simp add: transpose_alignment_def)
  ultimately show ?thesis by blast
qed

subsection \<open>Text form of probabilities\<close>

text \<open>
  The parts of the text form that do not depend on the float literals: the sentinel
  is read from and printed as \<open>*\<close>, and the error of an unparsable text quotes it.
  That a printed float is parsed back to itself is a property of the Go library.
\<close>

lemma NewProb_star: "NewProb ParseFloat mp invalidProb ''*'' = (mp, None)"
  by (simp add: NewProb_def)

lemma String_Prob_MinProb: "String_Prob Sprintf mp mp = ''*''"
  by (simp add: String_Prob_def IsMin_def)

lemma NewProb_error:
  assumes "fstr \<noteq> ''*''" and "ParseFloat fstr = Inl err"
  shows "\<exists>pre post. NewProb ParseFloat mp invalidProb fstr = (invalidProb, Some (pre @ fstr @ post))"
proof -
  have "NewProb ParseFloat mp invalidProb fstr
      = (invalidProb, Some ((''Could not convert '' @ [CHR 0x27]) @ fstr
           @ ([CHR 0x27] @ '' to a log probability: '' @ err)))"
    using assms by (simp add: NewProb_def)
  then show ?thesis by blast
qed

section \<open>The properties of the specification\<close>

text \<open>
  C1. \<open>ViterbiScore\<close> returns the score of the reference dynamic program: the table
  of \<open>3 * (nodeCount + 1) * (seqLen + 1)\<close> scores is \<open>MinProb\<close> everywhere except
  \<open>(Match, 0, 0)\<close>, which is 0; for each node and observation the propose-updates of
  the recurrence are applied, each keeping the numerically smaller value and the
  value already present on a tie; the score is the cell
  \<open>(Match, nodeCount, seqLen)\<close>. The recurrence has seven propose-updates (three from
  Match, two from Insertion, two from Deletion: Plan7 has no transition between
  Insertion and Deletion), not nine.
\<close>

theorem ViterbiScore_reference:
  "ViterbiScore mp hp hmm seq = Inr (viterbi_ref mp (nodes_of hp hmm) seq)
   \<and> length (scores (AllocTable mp (length (nodes_of hp hmm)) (Len seq)))
        = 3 * (length (nodes_of hp hmm) + 1) * (Len seq + 1)
   \<and> length (proposals tr iemit memit n ob hereM hereI hereD) = 7"
proof -
  let ?t = "AllocTable mp (length (nodes_of hp hmm)) (Len seq)"
  have shape: "nodes ?t = length (nodes_of hp hmm) + 1"
    "length (scores ?t) = 3 * (length (nodes_of hp hmm) + 1) * (Len seq + 1)"
    by (rule AllocTable_shape)+
  have "ViterbiScoreMem mp hp hmm seq ?t = Inr (viterbi_ref mp (nodes_of hp hmm) seq)"
    using shape by (rule ViterbiScoreMem_ref)
  then have "ViterbiScore mp hp hmm seq = Inr (viterbi_ref mp (nodes_of hp hmm) seq)"
    by (simp add: ViterbiScore_def Let_def)
  moreover have "length (proposals tr iemit memit n ob hereM hereI hereD) = 7"
    by (simp add: proposals_def)
  ultimately show ?thesis using shape(2) by simp
qed

text \<open>The list of propose-updates of one step does not have nine elements.\<close>

theorem nine_proposals_counterexample:
  "length (proposals (scenario_trans MaxFloat64) MaxFloat64 0 0 0 0 MaxFloat64 MaxFloat64) \<noteq> 9"
  by (simp add: proposals_def)

text \<open>
  C2. For a table with the dimensions that \<open>AllocTable\<close> gives for the HMM and the
  sequence, whatever its contents, \<open>ViterbiScoreMem\<close> returns what \<open>ViterbiScore\<close>
  returns, and that is a score, not a panic.
\<close>

theorem ViterbiScoreMem_any_table:
  assumes "nodes t = nodes (AllocTable mp (length (nodes_of hp hmm)) (Len seq))"
    and "length (scores t) = length (scores (AllocTable mp (length (nodes_of hp hmm)) (Len seq)))"
  shows "ViterbiScoreMem mp hp hmm seq t = ViterbiScore mp hp hmm seq
         \<and> (\<exists>p. ViterbiScore mp hp hmm seq = Inr p)"
proof -
  have "ViterbiScoreMem mp hp hmm seq t = Inr (viterbi_ref mp (nodes_of hp hmm) seq)"
    by (rule ViterbiScoreMem_ref) (use assms in \<open>simp_all add: AllocTable_shape\<close>)
  then show ?thesis by (simp add: ViterbiScore_ref)
qed

theorem ViterbiScoreMem_any_table_witness:
  "nodes \<lparr>scores = replicate 27 (1::real), nodes = 3\<rparr>
     = nodes (AllocTable MaxFloat64 (length (nodes_of (scenario_heap MaxFloat64) (scenario_hmm MaxFloat64))) (Len scenario_seq))
   \<and> length (scores \<lparr>scores = replicate 27 (1::real), nodes = 3\<rparr>)
     = length (scores (AllocTable MaxFloat64 (length (nodes_of (scenario_heap MaxFloat64) (scenario_hmm MaxFloat64))) (Len scenario_seq)))
   \<and> ViterbiScoreMem MaxFloat64 (scenario_heap MaxFloat64) (scenario_hmm MaxFloat64) scenario_seq
         \<lparr>scores = replicate 27 1, nodes = 3\<rparr>
       = ViterbiScore MaxFloat64 (scenario_heap MaxFloat64) (scenario_hmm MaxFloat64) scenario_seq"
proof -
  have h: "nodes \<lparr>scores = replicate 27 (1::real), nodes = 3\<rparr>
     = nodes (AllocTable MaxFloat64 (length (nodes_of (scenario_heap MaxFloat64) (scenario_hmm MaxFloat64))) (Len scenario_seq))"
    "length (scores \<lparr>scores = replicate 27 (1::real), nodes = 3\<rparr>)
     = length (scores (AllocTable MaxFloat64 (length (nodes_of (scenario_heap MaxFloat64) (scenario_hmm MaxFloat64))) (Len scenario_seq)))"
    by (simp_all add: AllocTable_shape nodes_of_def elems_def scenario_heap_def scenario_hmm_def Len_def scenario_seq_def)
  show ?thesis using h ViterbiScoreMem_any_table[OF h] by simp
qed

text \<open>
  C3. For every pair of sequences and every substitution function the traceback of
  \<open>NeedlemanWunsch\<close> never reaches a cell where none of the three predecessor
  conditions holds: the function returns an alignment, and in particular never the
  panic \<open>NoPath i j\<close> of the default case.
\<close>

theorem NeedlemanWunsch_never_panics:
  "(\<exists>aligned. NeedlemanWunsch seqA seqB subst = Inr aligned)
   \<and> NeedlemanWunsch seqA seqB subst \<noteq> Inl (NoPath i j)"
  using NeedlemanWunsch_result[of seqA seqB subst] by auto

text \<open>
  C4. For sequences without the gap symbol, \<open>NeedlemanWunsch\<close> returns an alignment
  whose two sequences have the same length, and removing every gap from the reference
  gives \<open>seqA\<close>, from the query gives \<open>seqB\<close>.
\<close>

theorem NeedlemanWunsch_alignment:
  assumes "gap \<notin> set seqA" and "gap \<notin> set seqB"
  shows "\<exists>aligned. NeedlemanWunsch seqA seqB subst = Inr aligned
           \<and> length (A aligned) = length (B aligned)
           \<and> filter (\<lambda>x. x \<noteq> gap) (A aligned) = seqA
           \<and> filter (\<lambda>x. x \<noteq> gap) (B aligned) = seqB"
proof -
  have "filter (\<lambda>x. x \<noteq> gap) seqA = seqA" "filter (\<lambda>x. x \<noteq> gap) seqB = seqB"
    using assms by (auto simp: filter_id_conv)
  then show ?thesis using NeedlemanWunsch_result[of seqA seqB subst] by auto
qed

theorem NeedlemanWunsch_alignment_witness:
  "gap \<notin> set [65, 66, 67] \<and> gap \<notin> set [65, 67]
   \<and> (\<exists>aligned. NeedlemanWunsch [65, 66, 67] [65, 67] scenario_subst = Inr aligned
           \<and> length (A aligned) = length (B aligned)
           \<and> filter (\<lambda>x. x \<noteq> gap) (A aligned) = [65, 66, 67]
           \<and> filter (\<lambda>x. x \<noteq> gap) (B aligned) = [65, 67])"
proof -
  have h: "gap \<notin> set [65, 66, 67]" "gap \<notin> set [65, 67]" by (simp_all add: gap_def)
  show ?thesis using h NeedlemanWunsch_alignment[OF h, of scenario_subst] by blast
qed

text \<open>
  C5. For a symmetric substitution function and sequences such that the traceback of
  \<open>(seqA, seqB)\<close> meets no cell where the diagonal move is not optimal and both gap
  moves are, \<open>NeedlemanWunsch\<close> of \<open>(seqA, seqB)\<close> and of \<open>(seqB, seqA)\<close> are
  transposes of one another: the reference of one is the query of the other, gaps
  included. A tie at a cell that the traceback does not visit is harmless, as for
  \<open>A\<close> against \<open>BA\<close>.
\<close>

theorem NeedlemanWunsch_transpose:
  assumes "\<forall>x y. subst x y = subst y x"
    and "\<not> path_tie seqA seqB subst (length seqA) (length seqB)"
  shows "\<exists>aligned. NeedlemanWunsch seqA seqB subst = Inr aligned
           \<and> NeedlemanWunsch seqB seqA subst = Inr (transpose_alignment aligned)"
  using NeedlemanWunsch_sym[of subst seqA seqB] assms by blast

theorem NeedlemanWunsch_transpose_witness:
  "(\<forall>x y. tie_subst x y = tie_subst y x)
   \<and> \<not> path_tie [65] [66, 65] tie_subst (length [65 :: Residue]) (length [66, 65 :: Residue])
   \<and> gap_tie [65] [66, 65] tie_subst 0 0
   \<and> (\<exists>aligned. NeedlemanWunsch [65] [66, 65] tie_subst = Inr aligned
           \<and> NeedlemanWunsch [66, 65] [65] tie_subst = Inr (transpose_alignment aligned))"
proof -
  have h: "\<forall>x y. tie_subst x y = tie_subst y x"
    "\<not> path_tie [65] [66, 65] tie_subst (length [65 :: Residue]) (length [66, 65 :: Residue])"
    using tie_subst_sym by (blast, code_simp)
  have t: "gap_tie [65] [66, 65] tie_subst 0 0" by code_simp
  show ?thesis using h t NeedlemanWunsch_transpose[OF h] by blast
qed

text \<open>
  With a tie on the path the two alignments need not be transposes: the traceback
  prefers the vertical gap in both calls. For \<open>A\<close> against \<open>B\<close> with a mismatch
  score of -3 and a gap score of -1 both calls put the gap of the reference first.
\<close>

theorem NeedlemanWunsch_transpose_counterexample:
  "(\<forall>x y. tie_subst x y = tie_subst y x)
   \<and> NeedlemanWunsch [65] [66] tie_subst = Inr \<lparr>A = [45, 65], B = [66, 45]\<rparr>
   \<and> NeedlemanWunsch [66] [65] tie_subst = Inr \<lparr>A = [45, 66], B = [65, 45]\<rparr>
   \<and> \<lparr>A = [45, 66], B = [65, 45]\<rparr> \<noteq> transpose_alignment \<lparr>A = [45, 65], B = [66, 45]\<rparr>"
proof -
  have "NeedlemanWunsch [65] [66] tie_subst = Inr \<lparr>A = [45, 65], B = [66, 45]\<rparr>"
    by code_simp
  moreover have "NeedlemanWunsch [66] [65] tie_subst = Inr \<lparr>A = [45, 66], B = [65, 45]\<rparr>"
    by code_simp
  ultimately show ?thesis using tie_subst_sym by (simp add: transpose_alignment_def)
qed

text \<open>
  C7. An emission table keeps the offset and the length that \<open>NewEProbs\<close> gave it for
  a non-empty alphabet (\<open>Set\<close> changes neither). For such a table and every residue
  outside the byte span \<open>[Offset, Offset + len(Probs) - 1]\<close>, \<open>Lookup\<close> returns
  \<open>MinProb\<close>, whatever the table stores, although the byte subtraction wraps.
\<close>

theorem Lookup_out_of_span:
  assumes "alphabet \<noteq> []"
    and "Offset ep = Offset (NewEProbs mp alphabet)"
    and "length (Probs ep) = length (Probs (NewEProbs mp alphabet))"
    and "\<not> (unat (Offset ep) \<le> unat r \<and> unat r < unat (Offset ep) + length (Probs ep))"
  shows "Lookup mp ep r = mp"
  using Lookup_outside[of ep r mp] NewEProbs_shape[OF assms(1), of mp] assms(2,3,4) by simp

theorem Lookup_out_of_span_witness:
  "[65, 66, 67 :: Residue] \<noteq> []
   \<and> Offset \<lparr>Offset = 65, Probs = [0, 0, 0 :: real]\<rparr> = Offset (NewEProbs MaxFloat64 [65, 66, 67])
   \<and> length (Probs \<lparr>Offset = 65, Probs = [0, 0, 0 :: real]\<rparr>)
        = length (Probs (NewEProbs MaxFloat64 [65, 66, 67]))
   \<and> \<not> (unat (65 :: Residue) \<le> unat (64 :: Residue) \<and> unat (64 :: Residue) < unat (65 :: Residue) + 3)
   \<and> Lookup MaxFloat64 \<lparr>Offset = 65, Probs = [0, 0, 0]\<rparr> 64 = MaxFloat64"
proof -
  have h: "[65, 66, 67 :: Residue] \<noteq> []"
    "Offset \<lparr>Offset = 65, Probs = [0, 0, 0 :: real]\<rparr> = Offset (NewEProbs MaxFloat64 [65, 66, 67])"
    "length (Probs \<lparr>Offset = 65, Probs = [0, 0, 0 :: real]\<rparr>)
        = length (Probs (NewEProbs MaxFloat64 [65, 66, 67]))"
    "\<not> (unat (Offset \<lparr>Offset = 65, Probs = [0, 0, 0 :: real]\<rparr>) \<le> unat (64 :: Residue)
        \<and> unat (64 :: Residue) < unat (Offset \<lparr>Offset = 65, Probs = [0, 0, 0 :: real]\<rparr>)
              + length (Probs \<lparr>Offset = 65, Probs = [0, 0, 0 :: real]\<rparr>))"
    by (simp_all add: NewEProbs_def span_step_def Let_def length_fold_upd)
  show ?thesis using h Lookup_out_of_span[OF h] by simp
qed

text \<open>
  C8. On an HMM with \<open>n \<ge> 1\<close> nodes, \<open>Slice 0 n\<close> returns an HMM with the same
  alphabet and null model whose nodes are a newly allocated array: a copy of the
  nodes in which only the transitions of the last node are replaced by
  \<open>MM = IM = DM = 0\<close>, \<open>MI = MD = II = DD = MinProb\<close>. Every array of the store before
  the call, so the nodes of the input HMM, is unchanged.
\<close>

theorem Slice_whole:
  assumes "wf_slice hp (Nodes hmm)" and "n = length (nodes_of hp hmm)" and "1 \<le> n"
  shows "Slice mp hp hmm 0 (int n) =
           Inr (\<lparr>Nodes = \<lparr>sl_base = length hp, sl_off = 0, sl_len = n, sl_cap = n\<rparr>,
                 Alphabet = Alphabet hmm, Null = Null hmm\<rparr>,
                hp @ [(nodes_of hp hmm)[n - 1 := (nodes_of hp hmm ! (n - 1))
                        \<lparr>Transitions := \<lparr>MM = 0, MI = mp, MD = mp, IM = 0, II = mp, DM = 0, DD = mp\<rparr>\<rparr>]])
         \<and> nodes_of (hp @ [(nodes_of hp hmm)[n - 1 := (nodes_of hp hmm ! (n - 1))
                        \<lparr>Transitions := \<lparr>MM = 0, MI = mp, MD = mp, IM = 0, II = mp, DM = 0, DD = mp\<rparr>\<rparr>]]) hmm
             = nodes_of hp hmm"
proof -
  have n: "n = sl_len (Nodes hmm)" using assms(1,2) by (simp add: wf_nodes_length)
  have a: "0 \<le> (0::int)" "0 < int n" "int n \<le> int (sl_cap (Nodes hmm))"
    using assms(1,3) n by (auto simp: wf_slice_def)
  have src: "take (nat (int n - 0)) (drop (sl_off (Nodes hmm) + nat 0) (hp ! sl_base (Nodes hmm))) = nodes_of hp hmm"
    using n by (simp add: nodes_of_def elems_def)
  have "Slice mp hp hmm 0 (int n) =
           Inr (\<lparr>Nodes = \<lparr>sl_base = length hp, sl_off = 0, sl_len = n, sl_cap = n\<rparr>,
                 Alphabet = Alphabet hmm, Null = Null hmm\<rparr>,
                hp @ [(nodes_of hp hmm)[n - 1 := (nodes_of hp hmm ! (n - 1))
                        \<lparr>Transitions := \<lparr>MM = 0, MI = mp, MD = mp, IM = 0, II = mp, DM = 0, DD = mp\<rparr>\<rparr>]])"
    unfolding Slice_ok[OF assms(1) a, of mp] Let_def src by simp
  moreover have "nodes_of (hp @ [xs]) hmm = nodes_of hp hmm" for xs
    using assms(1) by (simp add: nodes_of_def elems_append wf_slice_def)
  ultimately show ?thesis by simp
qed

theorem Slice_whole_witness:
  "wf_slice (scenario_heap MaxFloat64) (Nodes (scenario_hmm MaxFloat64))
   \<and> 2 = length (nodes_of (scenario_heap MaxFloat64) (scenario_hmm MaxFloat64))
   \<and> Slice MaxFloat64 (scenario_heap MaxFloat64) (scenario_hmm MaxFloat64) 0 2 =
        Inr (\<lparr>Nodes = \<lparr>sl_base = 1, sl_off = 0, sl_len = 2, sl_cap = 2\<rparr>,
              Alphabet = [88], Null = \<lparr>Offset = 88, Probs = [MaxFloat64]\<rparr>\<rparr>,
             [[scenario_node MaxFloat64, scenario_node MaxFloat64],
              [scenario_node MaxFloat64, scenario_node MaxFloat64]])"
proof -
  have h: "wf_slice (scenario_heap MaxFloat64) (Nodes (scenario_hmm MaxFloat64))"
    "2 = length (nodes_of (scenario_heap MaxFloat64) (scenario_hmm MaxFloat64))" "1 \<le> (2::nat)"
    by (simp_all add: scenario_hmm_def scenario_heap_def nodes_of_def elems_def wf_slice_def)
  have "Slice MaxFloat64 (scenario_heap MaxFloat64) (scenario_hmm MaxFloat64) 0 2 =
        Inr (\<lparr>Nodes = \<lparr>sl_base = 1, sl_off = 0, sl_len = 2, sl_cap = 2\<rparr>,
              Alphabet = [88], Null = \<lparr>Offset = 88, Probs = [MaxFloat64]\<rparr>\<rparr>,
             [[scenario_node MaxFloat64, scenario_node MaxFloat64],
              [scenario_node MaxFloat64, scenario_node MaxFloat64]])"
    using Slice_whole[OF h, of MaxFloat64]
    by (simp add: scenario_hmm_def scenario_heap_def nodes_of_def elems_def scenario_node_def scenario_trans_def)
  with h(1,2) show ?thesis by (intro conjI)
qed

text \<open>
  C10. \<open>Slice start start\<close> always panics; when the slice expression is in range the
  panic is the index \<open>-1\<close> of the empty node array. \<open>Slice\<close> returns an HMM exactly
  when \<open>0 \<le> start < end \<le> cap(hmm.Nodes)\<close>: Go checks a slice expression against
  the capacity of the slice, not its length.
\<close>

theorem Slice_empty_fails:
  "(\<exists>e. Slice mp hp hmm start start = Inl e)
   \<and> (0 \<le> start \<and> start \<le> int (sl_cap (Nodes hmm))
        \<longrightarrow> Slice mp hp hmm start start = Inl IndexOutOfRange)
   \<and> (wf_slice hp (Nodes hmm)
        \<longrightarrow> ((\<exists>r. Slice mp hp hmm start end = Inr r)
              \<longleftrightarrow> 0 \<le> start \<and> start < end \<and> end \<le> int (sl_cap (Nodes hmm))))"
proof -
  have "\<exists>r. Slice mp hp hmm start end = Inr r"
    if "wf_slice hp (Nodes hmm)" "0 \<le> start" "start < end" "end \<le> int (sl_cap (Nodes hmm))"
    using Slice_ok[OF that, of mp] by (simp add: Let_def)
  then show ?thesis
    using Slice_fails_empty[of mp hp hmm start] Slice_empty_index[of start hmm mp hp]
      Slice_defined[of mp hp hmm start "end"]
    by blast
qed

theorem Slice_empty_fails_witness:
  "0 \<le> (0::int) \<and> (0::int) \<le> int (sl_cap (Nodes (scenario_hmm MaxFloat64)))
   \<and> wf_slice (scenario_heap MaxFloat64) (Nodes (scenario_hmm MaxFloat64))
   \<and> Slice MaxFloat64 (scenario_heap MaxFloat64) (scenario_hmm MaxFloat64) 0 0 = Inl IndexOutOfRange
   \<and> (\<exists>r. Slice MaxFloat64 (scenario_heap MaxFloat64) (scenario_hmm MaxFloat64) 0 2 = Inr r)
   \<and> (0::int) < 2 \<and> 2 \<le> int (sl_cap (Nodes (scenario_hmm MaxFloat64)))"
proof -
  have h: "0 \<le> (0::int)" "(0::int) \<le> int (sl_cap (Nodes (scenario_hmm MaxFloat64)))"
    "wf_slice (scenario_heap MaxFloat64) (Nodes (scenario_hmm MaxFloat64))"
    "(0::int) < 2" "2 \<le> int (sl_cap (Nodes (scenario_hmm MaxFloat64)))"
    by (simp_all add: scenario_hmm_def scenario_heap_def wf_slice_def)
  show ?thesis
    using h Slice_empty_fails[of MaxFloat64 "scenario_heap MaxFloat64" "scenario_hmm MaxFloat64" 0 2]
    by simp
qed

text \<open>
  \<open>end \<le> len(hmm.Nodes)\<close> is not needed: on a node slice of length 3 and capacity 4,
  \<open>Slice 0 4\<close> returns an HMM of four nodes, the fourth being the array element
  behind the nodes of the HMM.
\<close>

theorem Slice_beyond_length_counterexample:
  "wf_slice (spare_heap MaxFloat64) (Nodes (spare_hmm MaxFloat64))
   \<and> length (nodes_of (spare_heap MaxFloat64) (spare_hmm MaxFloat64)) = 3
   \<and> \<not> (4 \<le> int (length (nodes_of (spare_heap MaxFloat64) (spare_hmm MaxFloat64))))
   \<and> Slice MaxFloat64 (spare_heap MaxFloat64) (spare_hmm MaxFloat64) 0 4 =
        Inr (\<lparr>Nodes = \<lparr>sl_base = 1, sl_off = 0, sl_len = 4, sl_cap = 4\<rparr>,
              Alphabet = [88], Null = \<lparr>Offset = 88, Probs = [MaxFloat64]\<rparr>\<rparr>,
             [[scenario_node MaxFloat64, scenario_node MaxFloat64, scenario_node MaxFloat64, zero_node],
              [scenario_node MaxFloat64, scenario_node MaxFloat64, scenario_node MaxFloat64,
               zero_node\<lparr>Transitions := scenario_trans MaxFloat64\<rparr>]])"
proof -
  have wf: "wf_slice (spare_heap MaxFloat64) (Nodes (spare_hmm MaxFloat64))"
    by (simp add: spare_hmm_def spare_heap_def wf_slice_def)
  have a: "0 \<le> (0::int)" "(0::int) < 4" "4 \<le> int (sl_cap (Nodes (spare_hmm MaxFloat64)))"
    by (simp_all add: spare_hmm_def)
  show ?thesis
    using wf Slice_ok[OF wf a, of MaxFloat64]
    by (simp add: spare_hmm_def spare_heap_def nodes_of_def elems_def scenario_trans_def Let_def)
qed

text \<open>
  C9. For every two-node HMM in which both nodes have the transitions
  \<open>MM = IM = DM = 0\<close>, \<open>MI = MD = II = DD = MinProb\<close>, match emission 0 and insertion
  emission \<open>MinProb\<close> for \<open>X\<close>, the score of the sequence \<open>XX\<close> is 0. The
  arithmetic facts used are those of \<open>minprob_arith\<close>.
\<close>

theorem ViterbiScore_scenario_C:
  fixes mp :: "'p::{zero,plus,ord}"
  assumes "minprob_arith mp"
    and "nodes_of hp hmm = [n1, n2]"
    and "Transitions n1 = scenario_trans mp" and "Transitions n2 = scenario_trans mp"
    and "Lookup mp (MatEmit n1) 88 = 0" and "Lookup mp (MatEmit n2) 88 = 0"
    and "Lookup mp (InsEmit n1) 88 = mp" and "Lookup mp (InsEmit n2) 88 = mp"
    and "Residues seq = [88, 88]"
  shows "ViterbiScore mp hp hmm seq = Inr 0"
  using scenario_ref[OF assms(1,3,4,6,7,8,9)] assms(2) by (simp add: ViterbiScore_ref)

theorem ViterbiScore_scenario_C_witness:
  "minprob_arith MaxFloat64
   \<and> nodes_of (scenario_heap MaxFloat64) (scenario_hmm MaxFloat64)
       = [scenario_node MaxFloat64, scenario_node MaxFloat64]
   \<and> Transitions (scenario_node MaxFloat64) = scenario_trans MaxFloat64
   \<and> Lookup MaxFloat64 (MatEmit (scenario_node MaxFloat64)) 88 = 0
   \<and> Lookup MaxFloat64 (InsEmit (scenario_node MaxFloat64)) 88 = MaxFloat64
   \<and> Residues scenario_seq = [88, 88]
   \<and> ViterbiScore MaxFloat64 (scenario_heap MaxFloat64) (scenario_hmm MaxFloat64) scenario_seq = Inr 0"
proof -
  have h: "minprob_arith MaxFloat64"
    "nodes_of (scenario_heap MaxFloat64) (scenario_hmm MaxFloat64)
       = [scenario_node MaxFloat64, scenario_node MaxFloat64]"
    "Transitions (scenario_node MaxFloat64) = scenario_trans MaxFloat64"
    "Transitions (scenario_node MaxFloat64) = scenario_trans MaxFloat64"
    "Lookup MaxFloat64 (MatEmit (scenario_node MaxFloat64)) 88 = 0"
    "Lookup MaxFloat64 (MatEmit (scenario_node MaxFloat64)) 88 = 0"
    "Lookup MaxFloat64 (InsEmit (scenario_node MaxFloat64)) 88 = MaxFloat64"
    "Lookup MaxFloat64 (InsEmit (scenario_node MaxFloat64)) 88 = MaxFloat64"
    "Residues scenario_seq = [88, 88]"
    by (simp_all add: minprob_arith_MaxFloat64 nodes_of_def elems_def scenario_heap_def scenario_hmm_def
        scenario_node_def scenario_seq_def Lookup_def)
  show ?thesis using h ViterbiScore_scenario_C[OF h] by simp
qed

end
